theory Spec2Isabelle
  imports Main "HOL-Library.AList" "HOL-Library.Multiset"
begin

section \<open>Dictionaries, sets and the depth-first topological sort\<close>

text \<open>
  A Python dictionary is an association list read with \<open>map_of\<close> and written with
  \<open>AList.update\<close>, which overwrites the value of a key that is present and appends a new
  key at the end: the insertion order of the dictionary is the order of the list.
  \<open>graph.get(node, ())\<close> is the successor list of a key and the empty tuple otherwise.
\<close>

type_synonym 'n graph = "('n \<times> 'n list) list"

definition graph_get :: "'n graph \<Rightarrow> 'n \<Rightarrow> 'n list" where
  "graph_get graph node = (case map_of graph node of None \<Rightarrow> [] | Some ks \<Rightarrow> ks)"

text \<open>
  \<open>set(graph)\<close> holds the keys. A Python set is kept as a duplicate-free list;
  \<open>set.pop()\<close> removes and returns an arbitrary element, which element being the choice
  of the interpreter. The choice is the parameter \<open>sel\<close>: the element at position
  \<open>sel xs mod length xs\<close> is popped, so every \<open>sel\<close> is a legal choice and every legal
  choice is some \<open>sel\<close>. The source pops only inside \<open>while unprocessed\<close>, from a set
  that is not empty. \<open>set.discard\<close> removes an element if it is there.
\<close>

type_synonym 'n chooser = "'n list \<Rightarrow> nat"

definition set_pop :: "'n chooser \<Rightarrow> 'n list \<Rightarrow> 'n \<times> 'n list" where
  "set_pop sel xs =
     (let i = sel xs mod length xs in (xs ! i, take i xs @ drop (Suc i) xs))"

definition set_discard :: "'n \<Rightarrow> 'n list \<Rightarrow> 'n list" where
  "set_discard k xs = removeAll k xs"

datatype color = GRAY | BLACK

text \<open>
  The four variables that the nested function \<open>dfs\<close> of \<open>topological_sort\<close> shares with
  its enclosing function. \<open>ordered\<close> is the deque (\<open>appendleft\<close> is \<open>#\<close>).
\<close>

record 'n sort_state =
  ordered :: "'n list"
  unprocessed :: "'n list"
  visited_nodes :: "'n \<rightharpoonup> color"
  removed_edges :: "('n \<times> 'n) set"

text \<open>
  \<open>dfs\<close> is the nested function; \<open>dfs_for\<close> is its \<open>for k in graph.get(node, ())\<close>
  loop over the successors still to be looked at. The recursion is as deep as the graph
  asks for: the interpreter's limit on the depth of recursion is not part of the model.
\<close>

function dfs :: "'n graph \<Rightarrow> 'n \<Rightarrow> 'n sort_state \<Rightarrow> 'n sort_state"
  and dfs_for :: "'n graph \<Rightarrow> 'n \<Rightarrow> 'n list \<Rightarrow> 'n sort_state \<Rightarrow> 'n sort_state"
where
  "dfs graph node s =
     (let s1 = s\<lparr>visited_nodes := (visited_nodes s)(node \<mapsto> GRAY)\<rparr>;
          s2 = dfs_for graph node (graph_get graph node) s1
      in s2\<lparr>ordered := node # ordered s2,
            visited_nodes := (visited_nodes s2)(node \<mapsto> BLACK)\<rparr>)"
| "dfs_for graph node [] s = s"
| "dfs_for graph node (k # ks) s =
     (case visited_nodes s k of
        Some GRAY \<Rightarrow>
          dfs_for graph node ks (s\<lparr>removed_edges := insert (node, k) (removed_edges s)\<rparr>)
      | Some BLACK \<Rightarrow> dfs_for graph node ks s
      | None \<Rightarrow>
          dfs_for graph node ks
            (dfs graph k (s\<lparr>unprocessed := set_discard k (unprocessed s)\<rparr>)))"
  by pat_completeness auto

text \<open>
  Termination of the recursion: every call of \<open>dfs\<close> made by the loop colours a node
  that had no colour, colours are never taken away, and the nodes of a graph are finitely
  many.
\<close>

definition graph_nodes :: "'n graph \<Rightarrow> 'n set" where
  "graph_nodes graph = set (map fst graph) \<union> (\<Union>ks \<in> set (map snd graph). set ks)"

lemma finite_graph_nodes: "finite (graph_nodes graph)"
  by (simp add: graph_nodes_def)

lemma graph_get_nodes: "set (graph_get graph node) \<subseteq> graph_nodes graph"
proof (cases "map_of graph node")
  case None
  then show ?thesis by (simp add: graph_get_def)
next
  case (Some ks)
  then have "(node, ks) \<in> set graph" by (rule map_of_SomeD)
  then have "set ks \<subseteq> (\<Union>ks \<in> set (map snd graph). set ks)" by force
  with Some show ?thesis by (auto simp: graph_get_def graph_nodes_def)
qed

lemma dfs_dom_mono_partial:
  "dfs_dfs_for_dom (Inl (graph, node, s)) \<Longrightarrow>
     dom (visited_nodes s) \<subseteq> dom (visited_nodes (dfs graph node s))"
  "dfs_dfs_for_dom (Inr (graph, node, ks, s)) \<Longrightarrow>
     dom (visited_nodes s) \<subseteq> dom (visited_nodes (dfs_for graph node ks s))"
proof (induction graph node s and graph node ks s rule: dfs_dfs_for.pinduct)
  case (1 graph node s)
  have "dom (visited_nodes s) \<subseteq> dom (visited_nodes (s\<lparr>visited_nodes := (visited_nodes s)(node \<mapsto> GRAY)\<rparr>))"
    by auto
  also note "1.IH"[OF refl]
  finally show ?case using "1.hyps" by (auto simp: dfs.psimps Let_def)
next
  case (2 graph node s)
  then show ?case by (simp add: dfs_for.psimps)
next
  case (3 graph node k ks s)
  show ?case
  proof (cases "visited_nodes s k")
    case None
    have "dom (visited_nodes s) \<subseteq> dom (visited_nodes (dfs graph k (s\<lparr>unprocessed := set_discard k (unprocessed s)\<rparr>)))"
      using "3.IH" None by auto
    also have "\<dots> \<subseteq> dom (visited_nodes (dfs_for graph node ks
        (dfs graph k (s\<lparr>unprocessed := set_discard k (unprocessed s)\<rparr>))))"
      using "3.IH" None by auto
    finally show ?thesis using "3.hyps" None by (simp add: dfs_for.psimps)
  next
    case (Some c)
    then show ?thesis using "3.hyps" "3.IH" by (cases c) (auto simp: dfs_for.psimps)
  qed
qed

definition unvisited :: "'n graph \<Rightarrow> 'n set \<Rightarrow> 'n sort_state \<Rightarrow> nat" where
  "unvisited graph extra s = card ((graph_nodes graph \<union> extra) - dom (visited_nodes s))"

lemma unvisited_mono:
  "extra' \<subseteq> graph_nodes graph \<union> extra \<Longrightarrow> finite extra \<Longrightarrow>
   dom (visited_nodes s) \<subseteq> dom (visited_nodes s') \<Longrightarrow>
   unvisited graph extra' s' \<le> unvisited graph extra s"
  unfolding unvisited_def
  by (rule card_mono) (auto simp: finite_graph_nodes)

definition dfs_measure ::
  "('n graph \<times> 'n \<times> 'n sort_state) + ('n graph \<times> 'n \<times> 'n list \<times> 'n sort_state) \<Rightarrow> nat \<times> nat" where
  "dfs_measure x = (case x of
      Inl (graph, node, s) \<Rightarrow>
        (2 * unvisited graph {node} s + (if node \<in> dom (visited_nodes s) then 2 else 0), 0)
    | Inr (graph, node, ks, s) \<Rightarrow> (2 * unvisited graph (set ks) s + 1, length ks))"

lemma unvisited_enter:
  assumes "node \<notin> dom (visited_nodes s)"
  shows "unvisited graph (set (graph_get graph node)) (s\<lparr>visited_nodes := (visited_nodes s)(node \<mapsto> c)\<rparr>)
          < unvisited graph {node} s"
proof -
  have eq: "graph_nodes graph \<union> set (graph_get graph node) = graph_nodes graph"
    using graph_get_nodes[of graph node] by auto
  have "(graph_nodes graph - dom ((visited_nodes s)(node \<mapsto> c)))
        \<subset> (graph_nodes graph \<union> {node}) - dom (visited_nodes s)"
    using assms by auto
  then show ?thesis
    unfolding unvisited_def eq
    by (simp add: psubset_card_mono finite_graph_nodes)
qed

termination dfs
proof (relation "inv_image (less_than <*lex*> less_than) dfs_measure")
  show "wf (inv_image (less_than <*lex*> less_than) dfs_measure)"
    by (intro wf_inv_image wf_lex_prod wf_less_than)
next
  fix graph :: "'n graph" and node :: 'n and s s1 :: "'n sort_state"
  assume "s1 = s\<lparr>visited_nodes := (visited_nodes s)(node \<mapsto> GRAY)\<rparr>"
  then show "(Inr (graph, node, graph_get graph node, s1), Inl (graph, node, s))
       \<in> inv_image (less_than <*lex*> less_than) dfs_measure"
  proof (cases "node \<in> dom (visited_nodes s)")
    case True
    have "unvisited graph (set (graph_get graph node)) s1 \<le> unvisited graph {node} s"
      using \<open>s1 = _\<close> graph_get_nodes[of graph node]
      by (intro unvisited_mono) auto
    with True show ?thesis by (simp add: dfs_measure_def)
  next
    case False
    from unvisited_enter[OF this, of graph GRAY] \<open>s1 = _\<close> False
    show ?thesis by (simp add: dfs_measure_def)
  qed
next
  fix graph :: "'n graph" and node k :: 'n and ks and s :: "'n sort_state"
  show "(Inr (graph, node, ks, s\<lparr>removed_edges := insert (node, k) (removed_edges s)\<rparr>),
         Inr (graph, node, k # ks, s)) \<in> inv_image (less_than <*lex*> less_than) dfs_measure"
  proof -
    have "unvisited graph (set ks) (s\<lparr>removed_edges := insert (node, k) (removed_edges s)\<rparr>)
          \<le> unvisited graph (set (k # ks)) s"
      by (intro unvisited_mono) auto
    then show ?thesis by (auto simp: dfs_measure_def)
  qed
next
  fix graph :: "'n graph" and node k :: 'n and ks and s :: "'n sort_state"
  show "(Inr (graph, node, ks, s), Inr (graph, node, k # ks, s))
         \<in> inv_image (less_than <*lex*> less_than) dfs_measure"
  proof -
    have "unvisited graph (set ks) s \<le> unvisited graph (set (k # ks)) s"
      by (intro unvisited_mono) auto
    then show ?thesis by (auto simp: dfs_measure_def)
  qed
next
  fix graph :: "'n graph" and node k :: 'n and ks and s :: "'n sort_state"
  assume "visited_nodes s k = None"
  then have "k \<notin> dom (visited_nodes (s\<lparr>unprocessed := set_discard k (unprocessed s)\<rparr>))"
    by auto
  moreover have "unvisited graph {k} (s\<lparr>unprocessed := set_discard k (unprocessed s)\<rparr>)
        \<le> unvisited graph (set (k # ks)) s"
    by (intro unvisited_mono) auto
  ultimately show "(Inl (graph, k, s\<lparr>unprocessed := set_discard k (unprocessed s)\<rparr>),
         Inr (graph, node, k # ks, s)) \<in> inv_image (less_than <*lex*> less_than) dfs_measure"
    by (simp add: dfs_measure_def)
next
  fix graph :: "'n graph" and node k :: 'n and ks and s :: "'n sort_state"
  assume "visited_nodes s k = None"
    and d: "dfs_dfs_for_dom (Inl (graph, k, s\<lparr>unprocessed := set_discard k (unprocessed s)\<rparr>))"
  have "unvisited graph (set ks) (dfs graph k (s\<lparr>unprocessed := set_discard k (unprocessed s)\<rparr>))
        \<le> unvisited graph (set (k # ks)) s"
    using dfs_dom_mono_partial(1)[OF d]
    by (intro unvisited_mono) auto
  then show "(Inr (graph, node, ks, dfs graph k (s\<lparr>unprocessed := set_discard k (unprocessed s)\<rparr>)),
         Inr (graph, node, k # ks, s)) \<in> inv_image (less_than <*lex*> less_than) dfs_measure"
    by (auto simp: dfs_measure_def)
qed

text \<open>
  The main loop \<open>while unprocessed: dfs(unprocessed.pop())\<close> and the function itself,
  which returns the deque and the set of removed edges.
\<close>

declare dfs.simps [simp del]

lemma dfs_unprocessed_length:
  "length (unprocessed (dfs graph node s)) \<le> length (unprocessed s)"
  "length (unprocessed (dfs_for graph node ks s)) \<le> length (unprocessed s)"
proof (induction graph node s and graph node ks s rule: dfs_dfs_for.induct)
  case (1 graph node s)
  from "1.IH"[OF refl] show ?case by (simp add: dfs.simps Let_def)
next
  case (2 graph node s)
  show ?case by simp
next
  case (3 graph node k ks s)
  show ?case
  proof (cases "visited_nodes s k")
    case None
    let ?s' = "s\<lparr>unprocessed := set_discard k (unprocessed s)\<rparr>"
    have "length (unprocessed (dfs_for graph node ks (dfs graph k ?s')))
            \<le> length (unprocessed (dfs graph k ?s'))"
      using "3.IH"(2)[OF None] .
    also have "\<dots> \<le> length (unprocessed ?s')"
      using "3.IH"(1)[OF None] .
    also have "\<dots> \<le> length (unprocessed s)"
      by (simp add: set_discard_def)
    finally show ?thesis using None by simp
  next
    case (Some c)
    show ?thesis
    proof (cases c)
      case GRAY
      with Some "3.IH"(3)[OF Some GRAY] show ?thesis by simp
    next
      case BLACK
      with Some "3.IH"(4)[OF Some BLACK] show ?thesis by simp
    qed
  qed
qed

lemma set_pop_length:
  assumes "xs \<noteq> []" and "set_pop sel xs = (node, rest)"
  shows "length rest < length xs"
proof -
  have "sel xs mod length xs < length xs" using assms(1) by simp
  then show ?thesis using assms(2) by (auto simp: set_pop_def Let_def)
qed

lemma sort_loop_decreases:
  assumes "unprocessed s \<noteq> []" and "set_pop sel (unprocessed s) = (node, rest)"
  shows "length (unprocessed (dfs graph node (s\<lparr>unprocessed := rest\<rparr>))) < length (unprocessed s)"
proof -
  have "length (unprocessed (dfs graph node (s\<lparr>unprocessed := rest\<rparr>))) \<le> length rest"
    using dfs_unprocessed_length(1)[of graph node "s\<lparr>unprocessed := rest\<rparr>"] by simp
  also have "length rest < length (unprocessed s)"
    using set_pop_length[OF assms] .
  finally show ?thesis .
qed

function sort_loop :: "'n chooser \<Rightarrow> 'n graph \<Rightarrow> 'n sort_state \<Rightarrow> 'n sort_state" where
  "sort_loop sel graph s =
     (if unprocessed s = [] then s
      else (case set_pop sel (unprocessed s) of
              (node, rest) \<Rightarrow> sort_loop sel graph (dfs graph node (s\<lparr>unprocessed := rest\<rparr>))))"
  by pat_completeness auto
termination
  by (relation "measure (\<lambda>(sel, graph, s). length (unprocessed s))")
     (auto simp: sort_loop_decreases)

declare sort_loop.simps [simp del]

definition topological_sort :: "'n chooser \<Rightarrow> 'n graph \<Rightarrow> 'n list \<times> ('n \<times> 'n) set" where
  "topological_sort sel graph =
     (let s = sort_loop sel graph
                \<lparr>ordered = [], unprocessed = remdups (map fst graph),
                 visited_nodes = Map.empty, removed_edges = {}\<rparr>
      in (ordered s, removed_edges s))"

definition precedes :: "'n \<Rightarrow> 'n \<Rightarrow> 'n list \<Rightarrow> bool" where
  "precedes u v xs = (v \<in> set (drop 1 (dropWhile (\<lambda>x. x \<noteq> u) xs)))"

lemma precedes_Cons_same: "precedes u v (u # xs) = (v \<in> set xs)"
  by (simp add: precedes_def)

lemma precedes_Cons_other: "x \<noteq> u \<Longrightarrow> precedes u v (x # xs) = precedes u v xs"
  by (simp add: precedes_def)

lemma precedes_iff:
  "precedes u v xs \<longleftrightarrow> (\<exists>as bs. xs = as @ u # bs \<and> u \<notin> set as \<and> v \<in> set bs)"
proof (induction xs)
  case Nil
  show ?case by (simp add: precedes_def)
next
  case (Cons x xs)
  show ?case
  proof (cases "x = u")
    case True
    have "(\<exists>as bs. u # xs = as @ u # bs \<and> u \<notin> set as \<and> v \<in> set bs) \<longleftrightarrow> v \<in> set xs"
    proof
      assume "\<exists>as bs. u # xs = as @ u # bs \<and> u \<notin> set as \<and> v \<in> set bs"
      then obtain as bs where *: "u # xs = as @ u # bs" "u \<notin> set as" "v \<in> set bs" by blast
      then have "as = []" by (cases as) auto
      with * show "v \<in> set xs" by simp
    next
      assume "v \<in> set xs"
      then have "u # xs = [] @ u # xs \<and> u \<notin> set [] \<and> v \<in> set xs" by simp
      then show "\<exists>as bs. u # xs = as @ u # bs \<and> u \<notin> set as \<and> v \<in> set bs" by blast
    qed
    with True show ?thesis by (simp add: precedes_Cons_same)
  next
    case False
    have "(\<exists>as bs. x # xs = as @ u # bs \<and> u \<notin> set as \<and> v \<in> set bs)
          \<longleftrightarrow> (\<exists>as bs. xs = as @ u # bs \<and> u \<notin> set as \<and> v \<in> set bs)"
    proof
      assume "\<exists>as bs. x # xs = as @ u # bs \<and> u \<notin> set as \<and> v \<in> set bs"
      then obtain as bs where *: "x # xs = as @ u # bs" "u \<notin> set as" "v \<in> set bs" by blast
      with False obtain as' where "as = x # as'" by (cases as) auto
      with * have "xs = as' @ u # bs \<and> u \<notin> set as' \<and> v \<in> set bs" by simp
      then show "\<exists>as bs. xs = as @ u # bs \<and> u \<notin> set as \<and> v \<in> set bs" by blast
    next
      assume "\<exists>as bs. xs = as @ u # bs \<and> u \<notin> set as \<and> v \<in> set bs"
      then obtain as bs where *: "xs = as @ u # bs" "u \<notin> set as" "v \<in> set bs" by blast
      with False have "x # xs = (x # as) @ u # bs \<and> u \<notin> set (x # as) \<and> v \<in> set bs" by simp
      then show "\<exists>as bs. x # xs = as @ u # bs \<and> u \<notin> set as \<and> v \<in> set bs" by blast
    qed
    with False Cons show ?thesis by (simp add: precedes_Cons_other)
  qed
qed

definition sort_inv :: "'n graph \<Rightarrow> 'n sort_state \<Rightarrow> bool" where
  "sort_inv graph s \<longleftrightarrow>
     distinct (ordered s) \<and> distinct (unprocessed s) \<and>
     set (ordered s) = {n. visited_nodes s n = Some BLACK} \<and>
     set (unprocessed s) \<inter> dom (visited_nodes s) = {} \<and>
     (\<forall>u \<in> set (ordered s). \<forall>v \<in> set (graph_get graph u).
         (u, v) \<in> removed_edges s \<or> precedes u v (ordered s))"

definition dfs_step :: "'n sort_state \<Rightarrow> 'n sort_state \<Rightarrow> bool" where
  "dfs_step s s' \<longleftrightarrow>
     {n. visited_nodes s' n = Some GRAY} = {n. visited_nodes s n = Some GRAY} \<and>
     set (ordered s) \<subseteq> set (ordered s') \<and>
     removed_edges s \<subseteq> removed_edges s' \<and>
     set (unprocessed s') \<subseteq> set (unprocessed s) \<and>
     set (unprocessed s) \<subseteq> set (unprocessed s') \<union> set (ordered s')"

lemma dfs_step_refl: "dfs_step s s"
  by (simp add: dfs_step_def)

lemma dfs_step_trans: "dfs_step s s' \<Longrightarrow> dfs_step s' s'' \<Longrightarrow> dfs_step s s''"
  unfolding dfs_step_def by blast

lemma sort_inv_enter:
  assumes "sort_inv graph s" "visited_nodes s node = None" "node \<notin> set (unprocessed s)"
  shows "sort_inv graph (s\<lparr>visited_nodes := (visited_nodes s)(node \<mapsto> GRAY)\<rparr>)"
  using assms unfolding sort_inv_def by auto

lemma sort_inv_leave:
  assumes inv: "sort_inv graph s" and gray: "visited_nodes s node = Some GRAY"
    and succs: "\<forall>k \<in> set (graph_get graph node). (node, k) \<in> removed_edges s \<or> k \<in> set (ordered s)"
  shows "sort_inv graph (s\<lparr>ordered := node # ordered s,
            visited_nodes := (visited_nodes s)(node \<mapsto> BLACK)\<rparr>)"
proof -
  from inv gray have notin: "node \<notin> set (ordered s)" by (auto simp: sort_inv_def)
  have edges: "\<forall>u \<in> set (node # ordered s). \<forall>v \<in> set (graph_get graph u).
         (u, v) \<in> removed_edges s \<or> precedes u v (node # ordered s)"
  proof (intro ballI)
    fix u v assume u: "u \<in> set (node # ordered s)" and v: "v \<in> set (graph_get graph u)"
    show "(u, v) \<in> removed_edges s \<or> precedes u v (node # ordered s)"
    proof (cases "u = node")
      case True
      with succs v show ?thesis by (auto simp: precedes_Cons_same)
    next
      case False
      with u have "u \<in> set (ordered s)" by simp
      with inv v have "(u, v) \<in> removed_edges s \<or> precedes u v (ordered s)"
        by (simp add: sort_inv_def)
      with False show ?thesis by (simp add: precedes_Cons_other)
    qed
  qed
  have "set (unprocessed s) \<inter> dom ((visited_nodes s)(node \<mapsto> BLACK)) = {}"
    using inv gray by (auto simp: sort_inv_def)
  moreover have "set (node # ordered s) = {n. ((visited_nodes s)(node \<mapsto> BLACK)) n = Some BLACK}"
    using inv by (auto simp: sort_inv_def)
  moreover have "distinct (node # ordered s)" "distinct (unprocessed s)"
    using inv notin by (auto simp: sort_inv_def)
  ultimately show ?thesis using edges by (simp add: sort_inv_def)
qed

lemma dfs_step_leave:
  assumes "visited_nodes s node = None"
    and "dfs_step (s\<lparr>visited_nodes := (visited_nodes s)(node \<mapsto> GRAY)\<rparr>) s2"
  shows "dfs_step s (s2\<lparr>ordered := node # ordered s2,
            visited_nodes := (visited_nodes s2)(node \<mapsto> BLACK)\<rparr>)"
proof -
  from assms(2) have g: "{n. visited_nodes s2 n = Some GRAY}
      = {n. ((visited_nodes s)(node \<mapsto> GRAY)) n = Some GRAY}"
    by (simp add: dfs_step_def)
  have "{n. ((visited_nodes s2)(node \<mapsto> BLACK)) n = Some GRAY}
      = {n. visited_nodes s2 n = Some GRAY} - {node}" by auto
  also have "\<dots> = {n. visited_nodes s n = Some GRAY}"
    unfolding g using assms(1) by auto
  finally show ?thesis using assms(2) by (auto simp: dfs_step_def)
qed

lemma dfs_correct:
  "sort_inv graph s \<Longrightarrow> visited_nodes s node = None \<Longrightarrow> node \<notin> set (unprocessed s) \<Longrightarrow>
     sort_inv graph (dfs graph node s) \<and> dfs_step s (dfs graph node s) \<and>
     node \<in> set (ordered (dfs graph node s))"
  "sort_inv graph s \<Longrightarrow> visited_nodes s node = Some GRAY \<Longrightarrow>
     sort_inv graph (dfs_for graph node ks s) \<and> dfs_step s (dfs_for graph node ks s) \<and>
     (\<forall>k \<in> set ks. (node, k) \<in> removed_edges (dfs_for graph node ks s)
                    \<or> k \<in> set (ordered (dfs_for graph node ks s)))"
proof (induction graph node s and graph node ks s rule: dfs_dfs_for.induct)
  case (1 graph node s)
  let ?s1 = "s\<lparr>visited_nodes := (visited_nodes s)(node \<mapsto> GRAY)\<rparr>"
  let ?s2 = "dfs_for graph node (graph_get graph node) ?s1"
  have inv1: "sort_inv graph ?s1" using "1.prems" by (rule sort_inv_enter)
  have "visited_nodes ?s1 node = Some GRAY" by simp
  from "1.IH"[OF refl inv1 this]
  have inv2: "sort_inv graph ?s2" and step: "dfs_step ?s1 ?s2"
    and succs: "\<forall>k \<in> set (graph_get graph node). (node, k) \<in> removed_edges ?s2 \<or> k \<in> set (ordered ?s2)"
    by blast+
  from step have "visited_nodes ?s2 node = Some GRAY" by (auto simp: dfs_step_def)
  from sort_inv_leave[OF inv2 this succs] dfs_step_leave[OF "1.prems"(2) step]
  show ?case by (simp add: dfs.simps Let_def)
next
  case (2 graph node s)
  then show ?case by (simp add: dfs_step_refl)
next
  case (3 graph node k ks s)
  show ?case
  proof (cases "visited_nodes s k")
    case None
    let ?s' = "s\<lparr>unprocessed := set_discard k (unprocessed s)\<rparr>"
    let ?s2 = "dfs graph k ?s'"
    let ?s3 = "dfs_for graph node ks ?s2"
    have inv': "sort_inv graph ?s'"
      using "3.prems"(1) by (auto simp: sort_inv_def set_discard_def distinct_removeAll)
    have "visited_nodes ?s' k = None" "k \<notin> set (unprocessed ?s')"
      using None by (simp_all add: set_discard_def)
    from "3.IH"(1)[OF None inv' this]
    have inv2: "sort_inv graph ?s2" and step2: "dfs_step ?s' ?s2" and k: "k \<in> set (ordered ?s2)"
      by blast+
    have step02: "dfs_step s ?s2"
      using step2 k by (auto simp: dfs_step_def set_discard_def)
    then have "visited_nodes ?s2 node = Some GRAY"
      using "3.prems"(2) by (auto simp: dfs_step_def)
    from "3.IH"(2)[OF None inv2 this]
    have inv3: "sort_inv graph ?s3" and step3: "dfs_step ?s2 ?s3"
      and rest: "\<forall>k \<in> set ks. (node, k) \<in> removed_edges ?s3 \<or> k \<in> set (ordered ?s3)"
      by blast+
    from k step3 have "k \<in> set (ordered ?s3)" by (auto simp: dfs_step_def)
    with inv3 dfs_step_trans[OF step02 step3] rest None show ?thesis by simp
  next
    case (Some c)
    show ?thesis
    proof (cases c)
      case GRAY
      let ?s' = "s\<lparr>removed_edges := insert (node, k) (removed_edges s)\<rparr>"
      let ?s3 = "dfs_for graph node ks ?s'"
      have inv': "sort_inv graph ?s'"
        using "3.prems"(1) by (auto simp: sort_inv_def)
      have "visited_nodes ?s' node = Some GRAY" using "3.prems"(2) by simp
      from "3.IH"(3)[OF Some GRAY inv' this]
      have inv3: "sort_inv graph ?s3" and step3: "dfs_step ?s' ?s3"
        and rest: "\<forall>k \<in> set ks. (node, k) \<in> removed_edges ?s3 \<or> k \<in> set (ordered ?s3)"
        by blast+
      have "dfs_step s ?s'" by (auto simp: dfs_step_def)
      from dfs_step_trans[OF this step3] have step: "dfs_step s ?s3" .
      from step3 have "(node, k) \<in> removed_edges ?s3" by (auto simp: dfs_step_def)
      with inv3 step rest Some GRAY show ?thesis by simp
    next
      case BLACK
      let ?s3 = "dfs_for graph node ks s"
      from "3.IH"(4)[OF Some BLACK "3.prems"]
      have inv3: "sort_inv graph ?s3" and step3: "dfs_step s ?s3"
        and rest: "\<forall>k \<in> set ks. (node, k) \<in> removed_edges ?s3 \<or> k \<in> set (ordered ?s3)"
        by blast+
      from "3.prems"(1) Some BLACK have "k \<in> set (ordered s)" by (simp add: sort_inv_def)
      with step3 have "k \<in> set (ordered ?s3)" by (auto simp: dfs_step_def)
      with inv3 step3 rest Some BLACK show ?thesis by simp
    qed
  qed
qed

lemma set_pop_props:
  assumes "distinct xs" "xs \<noteq> []" "set_pop sel xs = (node, rest)"
  shows "node \<in> set xs" "set rest = set xs - {node}" "distinct rest"
proof -
  let ?i = "sel xs mod length xs"
  have i: "?i < length xs" using assms(2) by simp
  have node: "node = xs ! ?i" and rest: "rest = take ?i xs @ drop (Suc ?i) xs"
    using assms(3) by (auto simp: set_pop_def Let_def)
  have xs: "xs = take ?i xs @ node # drop (Suc ?i) xs"
    unfolding node using i by (rule id_take_nth_drop)
  show "node \<in> set xs" using i node by simp
  from assms(1) have "distinct (take ?i xs @ node # drop (Suc ?i) xs)"
    using xs by simp
  then have d: "distinct rest" "node \<notin> set rest" unfolding rest by auto
  show "distinct rest" by fact
  have "set xs = insert node (set rest)"
    by (subst xs) (simp add: rest)
  with d show "set rest = set xs - {node}" by auto
qed

lemma dfs_ordered_subset:
  "set (ordered (dfs graph node s)) \<subseteq> set (ordered s) \<union> graph_nodes graph \<union> {node}"
  "set (ordered (dfs_for graph node ks s)) \<subseteq> set (ordered s) \<union> graph_nodes graph \<union> set ks"
proof (induction graph node s and graph node ks s rule: dfs_dfs_for.induct)
  case (1 graph node s)
  from "1.IH"[OF refl] graph_get_nodes[of graph node]
  show ?case by (auto simp: dfs.simps Let_def)
next
  case (2 graph node s)
  show ?case by simp
next
  case (3 graph node k ks s)
  show ?case
  proof (cases "visited_nodes s k")
    case None
    from "3.IH"(1)[OF None] "3.IH"(2)[OF None] None show ?thesis by auto
  next
    case (Some c)
    show ?thesis
    proof (cases c)
      case GRAY
      with Some "3.IH"(3)[OF Some GRAY] show ?thesis by auto
    next
      case BLACK
      with Some "3.IH"(4)[OF Some BLACK] show ?thesis by auto
    qed
  qed
qed

lemma sort_loop_correct:
  "sort_inv graph s \<Longrightarrow> {n. visited_nodes s n = Some GRAY} = {} \<Longrightarrow>
     sort_inv graph (sort_loop sel graph s) \<and>
     set (unprocessed s) \<union> set (ordered s) \<subseteq> set (ordered (sort_loop sel graph s)) \<and>
     set (ordered (sort_loop sel graph s))
       \<subseteq> set (ordered s) \<union> graph_nodes graph \<union> set (unprocessed s) \<and>
     removed_edges s \<subseteq> removed_edges (sort_loop sel graph s)"
proof (induction sel graph s rule: sort_loop.induct)
  case (1 sel graph s)
  show ?case
  proof (cases "unprocessed s = []")
    case True
    with "1.prems" show ?thesis by (simp add: sort_loop.simps)
  next
    case False
    obtain node rest where pop: "set_pop sel (unprocessed s) = (node, rest)"
      by (cases "set_pop sel (unprocessed s)")
    let ?s0 = "s\<lparr>unprocessed := rest\<rparr>"
    let ?s1 = "dfs graph node ?s0"
    from "1.prems"(1) have d: "distinct (unprocessed s)" by (simp add: sort_inv_def)
    note pp = set_pop_props[OF d False pop]
    have inv0: "sort_inv graph ?s0"
      using "1.prems"(1) pp by (auto simp: sort_inv_def)
    have unv: "visited_nodes ?s0 node = None"
      using "1.prems"(1) pp(1) by (auto simp: sort_inv_def)
    have nin: "node \<notin> set (unprocessed ?s0)" using pp(2) by simp
    from dfs_correct(1)[OF inv0 unv nin]
    have inv1: "sort_inv graph ?s1" and step: "dfs_step ?s0 ?s1" and n: "node \<in> set (ordered ?s1)"
      by blast+
    from step "1.prems"(2) have "{n. visited_nodes ?s1 n = Some GRAY} = {}"
      by (simp add: dfs_step_def)
    from "1.IH"[OF False pop[symmetric] inv1 this]
    have inv2: "sort_inv graph (sort_loop sel graph ?s1)"
      and sub: "set (unprocessed ?s1) \<union> set (ordered ?s1) \<subseteq> set (ordered (sort_loop sel graph ?s1))"
      and sup: "set (ordered (sort_loop sel graph ?s1))
          \<subseteq> set (ordered ?s1) \<union> graph_nodes graph \<union> set (unprocessed ?s1)"
      and rem: "removed_edges ?s1 \<subseteq> removed_edges (sort_loop sel graph ?s1)"
      by blast+
    have eq: "sort_loop sel graph s = sort_loop sel graph ?s1"
      using False pop by (subst sort_loop.simps) simp
    from step have u1: "set (unprocessed ?s0) \<subseteq> set (unprocessed ?s1) \<union> set (ordered ?s1)"
      and u2: "set (unprocessed ?s1) \<subseteq> set (unprocessed ?s0)"
      and o1: "set (ordered ?s0) \<subseteq> set (ordered ?s1)"
      and r1: "removed_edges ?s0 \<subseteq> removed_edges ?s1"
      by (simp_all add: dfs_step_def)
    have a: "set (unprocessed s) \<union> set (ordered s) \<subseteq> set (ordered (sort_loop sel graph ?s1))"
    proof -
      have "set (unprocessed s) \<subseteq> insert node (set rest)" using pp(2) by auto
      also have "\<dots> \<subseteq> set (unprocessed ?s1) \<union> set (ordered ?s1)" using u1 n by auto
      finally have "set (unprocessed s) \<subseteq> set (ordered (sort_loop sel graph ?s1))"
        using sub by blast
      moreover have "set (ordered s) \<subseteq> set (ordered (sort_loop sel graph ?s1))"
        using o1 sub by auto
      ultimately show ?thesis by blast
    qed
    have b: "set (ordered (sort_loop sel graph ?s1))
          \<subseteq> set (ordered s) \<union> graph_nodes graph \<union> set (unprocessed s)"
    proof -
      have "set (ordered ?s1) \<subseteq> set (ordered s) \<union> graph_nodes graph \<union> {node}"
        using dfs_ordered_subset(1)[of graph node ?s0] by simp
      moreover have "set (unprocessed ?s1) \<subseteq> set (unprocessed s)" using u2 pp(2) by auto
      ultimately show ?thesis using sup pp(1) by blast
    qed
    have c: "removed_edges s \<subseteq> removed_edges (sort_loop sel graph ?s1)"
      using rem r1 by auto
    show ?thesis unfolding eq using inv2 a b c by simp
  qed
qed

lemma topological_sort_inv:
  "sort_inv graph (sort_loop sel graph
      \<lparr>ordered = [], unprocessed = remdups (map fst graph),
       visited_nodes = Map.empty, removed_edges = {}\<rparr>)"
  "set (map fst graph) \<subseteq> set (fst (topological_sort sel graph))"
  "set (fst (topological_sort sel graph)) \<subseteq> graph_nodes graph"
proof -
  let ?s = "\<lparr>ordered = [], unprocessed = remdups (map fst graph),
       visited_nodes = Map.empty, removed_edges = {}\<rparr> :: 'a sort_state"
  have "sort_inv graph ?s" by (simp add: sort_inv_def)
  moreover have "{n. visited_nodes ?s n = Some GRAY} = {}" by simp
  ultimately have *: "sort_inv graph (sort_loop sel graph ?s) \<and>
     set (unprocessed ?s) \<union> set (ordered ?s) \<subseteq> set (ordered (sort_loop sel graph ?s)) \<and>
     set (ordered (sort_loop sel graph ?s))
       \<subseteq> set (ordered ?s) \<union> graph_nodes graph \<union> set (unprocessed ?s) \<and>
     removed_edges ?s \<subseteq> removed_edges (sort_loop sel graph ?s)"
    by (rule sort_loop_correct)
  then show "sort_inv graph (sort_loop sel graph ?s)" by blast
  from * show "set (map fst graph) \<subseteq> set (fst (topological_sort sel graph))"
    by (simp add: topological_sort_def Let_def)
  from * show "set (fst (topological_sort sel graph)) \<subseteq> graph_nodes graph"
    by (auto simp: topological_sort_def Let_def graph_nodes_def)
qed

lemma topological_sort_distinct: "distinct (fst (topological_sort sel graph))"
  using topological_sort_inv(1)[of graph sel]
  by (simp add: topological_sort_def Let_def sort_inv_def)

lemma topological_sort_edges:
  assumes "u \<in> set (fst (topological_sort sel graph))" "v \<in> set (graph_get graph u)"
  shows "(u, v) \<in> snd (topological_sort sel graph) \<or> precedes u v (fst (topological_sort sel graph))"
  using topological_sort_inv(1)[of graph sel] assms
  by (simp add: topological_sort_def Let_def sort_inv_def)

text \<open>
  C4. For every graph given as a dictionary from a node to the list of its successors, and
  for every order in which the set of unprocessed nodes hands out its elements: an edge
  \<open>u \<rightarrow> v\<close> of the graph that is not among the removed edges returned by
  \<open>topological_sort\<close> has \<open>u\<close> before \<open>v\<close> in the returned sequence.
\<close>

theorem topological_sort_retained_edge_forward:
  assumes "v \<in> set (graph_get graph u)"
    and "(u, v) \<notin> snd (topological_sort sel graph)"
  shows "precedes u v (fst (topological_sort sel graph))"
proof -
  from assms(1) obtain ks where "map_of graph u = Some ks"
    by (cases "map_of graph u") (auto simp: graph_get_def)
  then have "(u, ks) \<in> set graph" by (rule map_of_SomeD)
  then have "u \<in> set (map fst graph)" by force
  with topological_sort_inv(2)[of graph sel]
  have "u \<in> set (fst (topological_sort sel graph))" by blast
  from topological_sort_edges[OF this assms(1)] assms(2) show ?thesis by blast
qed

definition example_graph :: "string graph" where
  "example_graph = [(''a'', [''b'', ''c'', ''d'']), (''b'', []), (''c'', [''d'']), (''d'', []),
                    (''e'', [''f'']), (''f'', [])]"

lemma example_sort:
  "topological_sort (\<lambda>_. 0) example_graph = ([''e'', ''f'', ''a'', ''c'', ''d'', ''b''], {})"
  by code_simp

theorem topological_sort_retained_edge_forward_witness:
  "''d'' \<in> set (graph_get example_graph ''c'')
   \<and> (''c'', ''d'') \<notin> snd (topological_sort (\<lambda>_. 0) example_graph)
   \<and> precedes ''c'' ''d'' (fst (topological_sort (\<lambda>_. 0) example_graph))"
proof -
  have h1: "''d'' \<in> set (graph_get example_graph ''c'')"
    by (simp add: example_graph_def graph_get_def)
  have h2: "(''c'', ''d'') \<notin> snd (topological_sort (\<lambda>_. 0) example_graph)"
    by (simp add: example_sort)
  from topological_sort_retained_edge_forward[OF h1 h2] h1 h2 show ?thesis by blast
qed

section \<open>Steps, the object store and the story graph\<close>

text \<open>
  Modelled from the spec: the classes \<open>StoryStep\<close> and \<open>Checkpoint\<close> are not under src/.
  By the spec a step has a unique identity (a string), a start and an end checkpoint label
  and the events it contributes; two checkpoints are equal iff their labels are, and the
  absent label denotes the end of a story. So a step object has an identity \<open>id\<close> (here
  \<open>step_id\<close>), a start and an end checkpoint, and further attributes that this module
  never reads, the \<open>payload\<close>; a checkpoint is represented by its name and an absent
  checkpoint by \<open>None\<close>, and \<open>start_checkpoint_name()\<close> and \<open>end_checkpoint_name()\<close>
  read the field.
\<close>

record 'p story_step =
  step_id :: string
  start_checkpoint :: "string option"
  end_checkpoint :: "string option"
  payload :: 'p

definition start_checkpoint_name :: "'p story_step \<Rightarrow> string option" where
  "start_checkpoint_name step = start_checkpoint step"

definition end_checkpoint_name :: "'p story_step \<Rightarrow> string option" where
  "end_checkpoint_name step = end_checkpoint step"

text \<open>
  \<open>defaultdict(list)\<close>: a missing key reads as the empty list.
\<close>

definition defaultdict_get :: "('k \<times> 'v list) list \<Rightarrow> 'k \<Rightarrow> 'v list" where
  "defaultdict_get d k = (case map_of d k of None \<Rightarrow> [] | Some vs \<Rightarrow> vs)"

definition group_by_start_checkpoint ::
  "'p story_step list \<Rightarrow> (string option \<times> 'p story_step list) list" where
  "group_by_start_checkpoint story_steps =
     foldl (\<lambda>checkpoints step.
              AList.update (start_checkpoint_name step)
                (defaultdict_get checkpoints (start_checkpoint_name step) @ [step]) checkpoints)
           [] story_steps"

definition order_steps ::
  "string chooser \<Rightarrow> 'p story_step list \<Rightarrow> string list \<times> (string \<times> string) set" where
  "order_steps sel story_steps =
     (let checkpoints = group_by_start_checkpoint story_steps;
          graph = foldl (\<lambda>g s. AList.update (step_id s)
                     (map step_id (defaultdict_get checkpoints (end_checkpoint_name s))) g)
                   [] story_steps
      in topological_sort sel graph)"

text \<open>
  Objects live in a store and are referred to by address, so that copying a reference and
  copying an object differ as they do in Python: step objects, graph objects, and the two
  Python lists a graph holds, the list of its steps and the list of its end checkpoints,
  which are list objects that \<open>append\<close> changes in place. The counters count the allocated
  objects, \<open>n_ids\<close> the identifiers generated so far. The lookup dictionary, the deque
  \<open>ordered_ids\<close> and the set \<open>cyclic_edge_ids\<close> are created inside \<open>__init__\<close>, held by the
  graph object alone and only read afterwards: they are kept in the graph object.
\<close>

record story_graph =
  story_steps :: nat
  step_lookup :: "(string \<times> nat) list"
  ordered_ids :: "string list"
  cyclic_edge_ids :: "(string \<times> string) set"
  story_end_checkpoints :: nat

record 'p store =
  steps :: "nat \<Rightarrow> 'p story_step"
  n_steps :: nat
  graphs :: "nat \<Rightarrow> story_graph"
  n_graphs :: nat
  step_lists :: "nat \<Rightarrow> nat list"
  n_step_lists :: nat
  name_lists :: "nat \<Rightarrow> string list"
  n_name_lists :: nat
  n_ids :: nat

datatype error = AttributeError | KeyError

text \<open>A new list object (a list display, a slice copy, a comprehension) and \<open>append\<close>.\<close>

definition new_step_list :: "nat list \<Rightarrow> 'p store \<Rightarrow> nat \<times> 'p store" where
  "new_step_list xs st =
     (n_step_lists st,
      st\<lparr>step_lists := (step_lists st)(n_step_lists st := xs),
         n_step_lists := Suc (n_step_lists st)\<rparr>)"

definition new_name_list :: "string list \<Rightarrow> 'p store \<Rightarrow> nat \<times> 'p store" where
  "new_name_list xs st =
     (n_name_lists st,
      st\<lparr>name_lists := (name_lists st)(n_name_lists st := xs),
         n_name_lists := Suc (n_name_lists st)\<rparr>)"

definition step_list_append :: "nat \<Rightarrow> nat \<Rightarrow> 'p store \<Rightarrow> 'p store" where
  "step_list_append l x st = st\<lparr>step_lists := (step_lists st)(l := step_lists st l @ [x])\<rparr>"

definition name_list_append :: "nat \<Rightarrow> string \<Rightarrow> 'p store \<Rightarrow> 'p store" where
  "name_list_append l x st = st\<lparr>name_lists := (name_lists st)(l := name_lists st l @ [x])\<rparr>"

text \<open>
  \<open>StoryGraph.__init__\<close> on the list objects it is handed: it keeps the reference to the
  step list, builds the lookup dictionary and the ordering from the steps in it, keeps the
  list of end checkpoints if that is given and not empty and a new empty list otherwise,
  and returns the address of the graph object.
\<close>

definition StoryGraph_init_refs ::
  "string chooser \<Rightarrow> 'p store \<Rightarrow> nat \<Rightarrow> nat option \<Rightarrow> 'p store \<times> nat" where
  "StoryGraph_init_refs sel st story_steps_arg story_end_checkpoints_arg =
     (case order_steps sel (map (steps st) (step_lists st story_steps_arg)) of
        (ordered_ids_v, cyclic_edges_v) \<Rightarrow>
          (case (case story_end_checkpoints_arg of
                   None \<Rightarrow> new_name_list [] st
                 | Some cs \<Rightarrow> if name_lists st cs \<noteq> [] then (cs, st)
                             else new_name_list [] st) of
             (end_cps, st1) \<Rightarrow>
               let self = \<lparr>story_steps = story_steps_arg,
                           step_lookup = foldl (\<lambda>d s. AList.update (step_id (steps st s)) s d)
                                           [] (step_lists st story_steps_arg),
                           ordered_ids = ordered_ids_v,
                           cyclic_edge_ids = cyclic_edges_v,
                           story_end_checkpoints = end_cps\<rparr>
               in (st1\<lparr>graphs := (graphs st1)(n_graphs st1 := self),
                       n_graphs := Suc (n_graphs st1)\<rparr>,
                   n_graphs st1)))"

text \<open>
  The call \<open>StoryGraph(steps, end_checkpoints)\<close> of a caller that writes the lists out: the
  list objects are created, then \<open>__init__\<close> runs on them.
\<close>

definition StoryGraph_init ::
  "string chooser \<Rightarrow> 'p store \<Rightarrow> nat list \<Rightarrow> string list option \<Rightarrow> 'p store \<times> nat" where
  "StoryGraph_init sel st story_steps_arg story_end_checkpoints_arg =
     (case new_step_list story_steps_arg st of
        (ss, st1) \<Rightarrow>
          (case story_end_checkpoints_arg of
             None \<Rightarrow> StoryGraph_init_refs sel st1 ss None
           | Some cs \<Rightarrow>
               (case new_name_list cs st1 of
                  (end_cps, st2) \<Rightarrow> StoryGraph_init_refs sel st2 ss (Some end_cps))))"

definition get :: "story_graph \<Rightarrow> string \<Rightarrow> nat option" where
  "get self sid = map_of (step_lookup self) sid"

definition ordered_steps :: "story_graph \<Rightarrow> nat option list" where
  "ordered_steps self = map (get self) (ordered_ids self)"

text \<open>
  \<open>cyclic_edge_ids\<close> is a Python set; iterating over it yields its elements in an order
  chosen by the interpreter, the parameter \<open>iter\<close>.
\<close>

definition cyclic_edges ::
  "((string \<times> string) set \<Rightarrow> (string \<times> string) list) \<Rightarrow> story_graph
     \<Rightarrow> (nat option \<times> nat option) list" where
  "cyclic_edges iter self =
     map (\<lambda>(source, target). (get self source, get self target)) (iter (cyclic_edge_ids self))"

text \<open>
  Modelled from the spec: \<open>utils.generate_id\<close> and \<open>StoryStep.create_copy\<close> are not in
  this module. The spec asks for a fresh label, unique per call, and for a copy that
  preserves all fields but has a new unique identity and does not alias the original.
  \<open>uuid n\<close> is the \<open>n\<close>-th identifier handed out.
\<close>

definition generate_id :: "(nat \<Rightarrow> string) \<Rightarrow> string \<Rightarrow> 'p store \<Rightarrow> string \<times> 'p store" where
  "generate_id uuid prefix st = (prefix @ uuid (n_ids st), st\<lparr>n_ids := Suc (n_ids st)\<rparr>)"

definition create_copy :: "(nat \<Rightarrow> string) \<Rightarrow> nat \<Rightarrow> 'p store \<Rightarrow> nat \<times> 'p store" where
  "create_copy uuid s st =
     (n_steps st,
      st\<lparr>steps := (steps st)(n_steps st := (steps st s)\<lparr>step_id := uuid (n_ids st)\<rparr>),
         n_steps := Suc (n_steps st),
         n_ids := Suc (n_ids st)\<rparr>)"

text \<open>
  \<open>{start.id for start, _ in cyclic_edges}\<close>: reading \<open>.id\<close> of \<open>None\<close> raises.
\<close>

fun start_ids :: "'p store \<Rightarrow> (nat option \<times> nat option) list \<Rightarrow> error + string list" where
  "start_ids st [] = Inr []"
| "start_ids st ((None, e) # rest) = Inl AttributeError"
| "start_ids st ((Some start, e) # rest) =
     (case start_ids st rest of
        Inl err \<Rightarrow> Inl err
      | Inr ids \<Rightarrow> Inr (step_id (steps st start) # ids))"

text \<open>
  The body of the loop \<open>for s, e in cyclic_edges\<close> (lines 63 to 72), on the two list
  objects the loop appends to. It returns the store and the error raised, if any.
\<close>

definition add_changed_step ::
  "(nat \<Rightarrow> string) \<Rightarrow> nat option \<Rightarrow> nat option \<Rightarrow> 'p store \<Rightarrow> nat \<Rightarrow> nat
     \<Rightarrow> 'p store \<times> (error + unit)" where
  "add_changed_step uuid s e st end_cps story_steps_v =
     (case generate_id uuid ''CYCLE_'' st of (cid, st1) \<Rightarrow>
        let st2 = name_list_append end_cps cid st1
        in (case s of
              None \<Rightarrow> (st2, Inl AttributeError)
            | Some s_ref \<Rightarrow>
               (case create_copy uuid s_ref st2 of (modified_start, st3) \<Rightarrow>
                  let st4 = st3\<lparr>steps := (steps st3)(modified_start :=
                                  (steps st3 modified_start)\<lparr>end_checkpoint := Some cid\<rparr>)\<rparr>;
                      st5 = step_list_append story_steps_v modified_start st4
                  in (case e of
                        None \<Rightarrow> (st5, Inl AttributeError)
                      | Some e_ref \<Rightarrow>
                         (case create_copy uuid e_ref st5 of (modified_end, st6) \<Rightarrow>
                            let st7 = st6\<lparr>steps := (steps st6)(modified_end :=
                                          (steps st6 modified_end)
                                            \<lparr>start_checkpoint := Some cid\<rparr>)\<rparr>;
                                st8 = step_list_append story_steps_v modified_end st7
                            in (st8, Inr ()))))))"

fun add_changed_steps ::
  "(nat \<Rightarrow> string) \<Rightarrow> (nat option \<times> nat option) list \<Rightarrow> 'p store \<Rightarrow> nat \<Rightarrow> nat
     \<Rightarrow> 'p store \<times> (error + unit)" where
  "add_changed_steps uuid [] st end_cps story_steps_v = (st, Inr ())"
| "add_changed_steps uuid ((s, e) # rest) st end_cps story_steps_v =
     (case add_changed_step uuid s e st end_cps story_steps_v of
        (st', Inl err) \<Rightarrow> (st', Inl err)
      | (st', Inr u) \<Rightarrow> add_changed_steps uuid rest st' end_cps story_steps_v)"

definition with_cycles_removed ::
  "(nat \<Rightarrow> string) \<Rightarrow> ((string \<times> string) set \<Rightarrow> (string \<times> string) list) \<Rightarrow> string chooser
     \<Rightarrow> 'p store \<Rightarrow> nat \<Rightarrow> 'p store \<times> (error + nat)" where
  "with_cycles_removed uuid iter sel st self =
     (case new_name_list (name_lists st (story_end_checkpoints (graphs st self))) st of
        (end_cps, st1) \<Rightarrow>
          let cyclic_edges_v = cyclic_edges iter (graphs st1 self)
          in (case start_ids st1 cyclic_edges_v of
                Inl err \<Rightarrow> (st1, Inl err)
              | Inr ids \<Rightarrow>
                 (let steps_to_be_removed = set ids
                  in case new_step_list
                            (filter (\<lambda>s. step_id (steps st1 s) \<notin> steps_to_be_removed)
                               (step_lists st1 (story_steps (graphs st1 self)))) st1 of
                       (story_steps_v, st2) \<Rightarrow>
                         (case add_changed_steps uuid cyclic_edges_v st2 end_cps story_steps_v of
                            (st', Inl err) \<Rightarrow> (st', Inl err)
                          | (st', Inr u) \<Rightarrow>
                              (case StoryGraph_init_refs sel st' story_steps_v (Some end_cps) of
                                 (st'', g) \<Rightarrow> (st'', Inr g))))))"

section \<open>Building the stories\<close>

text \<open>
  Modelled from the spec: the class \<open>Story\<close> and the constant \<open>STORY_START\<close> are not
  under src/. By the spec a story is the ordered sequence of its steps, so \<open>Story()\<close> is
  the empty list and \<open>Story(tracker.story_steps + [step])\<close> appends a step; the start
  sentinel is a checkpoint label, the end sentinel is the absent label \<open>None\<close>.

  The other things \<open>build_stories\<close> takes from outside this module are parameters: the
  generator \<open>random.Random\<close>, the helper \<open>utils.subsample_array\<close>, called with the list,
  the maximum and the generator, and the method \<open>explicit_events\<close> of a step. The state of
  the generator is a value of type \<open>'r\<close> that the helper hands back; where a claim is about
  two runs, \<open>'r\<close> is the state of the generator created here together with the state of
  the module-level generator.
\<close>

type_synonym story = "nat list"

record ('p, 'd, 'ev, 'r) collaborators =
  STORY_START :: string
  Random :: "int \<Rightarrow> 'r"
  subsample_array :: "story list \<Rightarrow> int \<Rightarrow> 'r \<Rightarrow> story list \<times> 'r"
  explicit_events :: "'p story_step \<Rightarrow> 'd \<Rightarrow> 'ev list"

type_synonym active_trackers = "(string option \<times> story list) list"

text \<open>
  Lines 103 to 105: \<open>if max_number_of_trackers is not None\<close> the incoming trackers are
  replaced by what \<open>utils.subsample_array\<close> returns.
\<close>

definition subsample_incoming ::
  "('p, 'd, 'ev, 'r) collaborators \<Rightarrow> int option \<Rightarrow> story list \<Rightarrow> 'r \<Rightarrow> story list \<times> 'r" where
  "subsample_incoming env max_number_of_trackers incoming rand =
     (case max_number_of_trackers of
        None \<Rightarrow> (incoming, rand)
      | Some m \<Rightarrow> subsample_array env incoming m rand)"

text \<open>The body of the loop \<open>for step in self.ordered_steps()\<close>, for a step object.\<close>

definition build_step ::
  "('p, 'd, 'ev, 'r) collaborators \<Rightarrow> 'p store \<Rightarrow> 'd \<Rightarrow> int option \<Rightarrow> nat
     \<Rightarrow> active_trackers \<times> 'r \<Rightarrow> active_trackers \<times> 'r" where
  "build_step env st domain max_number_of_trackers step = (\<lambda>(active, rand).
     (case map_of active (start_checkpoint_name (steps st step)) of
        None \<Rightarrow> (active, rand)
      | Some incoming \<Rightarrow>
          (case subsample_incoming env max_number_of_trackers incoming rand of
             (incoming_trackers, rand') \<Rightarrow>
               let events = explicit_events env (steps st step) domain;
                   trackers = (if events \<noteq> []
                               then map (\<lambda>tracker. tracker @ [step]) incoming_trackers
                               else []);
                   end_name = end_checkpoint_name (steps st step);
                   active1 = (if map_of active end_name = None
                              then AList.update end_name [] active else active);
                   active2 = AList.update end_name (defaultdict_get active1 end_name @ trackers)
                               active1
               in (active2, rand'))))"

text \<open>
  The loop. \<open>ordered_steps\<close> holds \<open>None\<close> for an identifier that \<open>get\<close> does not find;
  calling \<open>start_checkpoint_name\<close> on it raises.
\<close>

fun build_loop ::
  "('p, 'd, 'ev, 'r) collaborators \<Rightarrow> 'p store \<Rightarrow> 'd \<Rightarrow> int option \<Rightarrow> nat option list
     \<Rightarrow> active_trackers \<times> 'r \<Rightarrow> error + active_trackers \<times> 'r" where
  "build_loop env st domain m [] acc = Inr acc"
| "build_loop env st domain m (None # rest) acc = Inl AttributeError"
| "build_loop env st domain m (Some step # rest) acc =
     build_loop env st domain m rest (build_step env st domain m step acc)"

definition build_stories ::
  "('p, 'd, 'ev, 'r) collaborators \<Rightarrow> 'p store \<Rightarrow> nat \<Rightarrow> 'd \<Rightarrow> int option
     \<Rightarrow> error + story list" where
  "build_stories env st self domain max_number_of_trackers =
     (let active_trackers = [(Some (STORY_START env), [[]])];
          rand = Random env 42
      in case build_loop env st domain max_number_of_trackers
                (ordered_steps (graphs st self)) (active_trackers, rand) of
           Inl err \<Rightarrow> Inl err
         | Inr (active, rand') \<Rightarrow>
             (case map_of active None of
                None \<Rightarrow> Inl KeyError
              | Some stories \<Rightarrow> Inr stories))"

text \<open>
  Modelled from the spec: \<open>utils.subsample_array\<close> is not under src/. The spec: if the
  frontier holds more than the configured maximum, it is subsampled down to that maximum
  with the seeded generator, a random subset without replacement. \<open>shuffle\<close> is the
  generator's permutation of a list.
\<close>

definition spec_subsample_array ::
  "('r \<Rightarrow> 'a list \<Rightarrow> 'a list \<times> 'r) \<Rightarrow> 'a list \<Rightarrow> int \<Rightarrow> 'r \<Rightarrow> 'a list \<times> 'r" where
  "spec_subsample_array shuffle arr max_values rand =
     (if int (length arr) > max_values
      then (case shuffle rand arr of (arr', rand') \<Rightarrow> (take (nat max_values) arr', rand'))
      else (arr, rand))"

section \<open>Properties of the ordering of steps\<close>

lemma defaultdict_get_update:
  "defaultdict_get (AList.update k v d) c = (if c = k then v else defaultdict_get d c)"
  by (simp add: defaultdict_get_def update_conv')

lemma defaultdict_get_Nil: "defaultdict_get [] c = []"
  by (simp add: defaultdict_get_def)

lemma group_fold:
  "defaultdict_get
     (foldl (\<lambda>checkpoints step.
              AList.update (start_checkpoint_name step)
                (defaultdict_get checkpoints (start_checkpoint_name step) @ [step]) checkpoints)
        acc ss) c
   = defaultdict_get acc c @ filter (\<lambda>s. start_checkpoint_name s = c) ss"
proof (induction ss arbitrary: acc)
  case Nil
  show ?case by simp
next
  case (Cons s ss)
  show ?case by (simp add: Cons.IH defaultdict_get_update)
qed

lemma group_by_start_checkpoint_get:
  "defaultdict_get (group_by_start_checkpoint ss) c
     = filter (\<lambda>s. start_checkpoint_name s = c) ss"
  by (simp add: group_by_start_checkpoint_def group_fold defaultdict_get_Nil)

lemma set_update_subset: "set (AList.update k v al) \<subseteq> insert (k, v) (set al)"
  by (induction al) auto

lemma fold_update_keys:
  "fst ` set (foldl (\<lambda>g s. AList.update (key s) (val s) g) acc xs) = fst ` set acc \<union> key ` set xs"
proof (induction xs arbitrary: acc)
  case Nil
  show ?case by simp
next
  case (Cons x xs)
  show ?case by (simp add: Cons.IH dom_update)
qed

lemma fold_update_entries:
  "set (foldl (\<lambda>g s. AList.update (key s) (val s) g) acc xs)
     \<subseteq> set acc \<union> (\<lambda>s. (key s, val s)) ` set xs"
proof (induction xs arbitrary: acc)
  case Nil
  show ?case by simp
next
  case (Cons x xs)
  have "set (foldl (\<lambda>g s. AList.update (key s) (val s) g) (AList.update (key x) (val x) acc) xs)
      \<subseteq> set (AList.update (key x) (val x) acc) \<union> (\<lambda>s. (key s, val s)) ` set xs"
    by (rule Cons.IH)
  also have "\<dots> \<subseteq> insert (key x, val x) (set acc) \<union> (\<lambda>s. (key s, val s)) ` set xs"
    using set_update_subset[of "key x" "val x" acc] by blast
  finally show ?case by auto
qed

definition steps_graph :: "'p story_step list \<Rightarrow> string graph" where
  "steps_graph ss =
     foldl (\<lambda>g s. AList.update (step_id s)
               (map step_id (defaultdict_get (group_by_start_checkpoint ss)
                               (end_checkpoint_name s))) g)
       [] ss"

lemma order_steps_graph: "order_steps sel ss = topological_sort sel (steps_graph ss)"
  by (simp add: order_steps_def steps_graph_def Let_def)

lemma steps_graph_keys: "set (map fst (steps_graph ss)) = step_id ` set ss"
  unfolding steps_graph_def set_map by (simp add: fold_update_keys)

lemma steps_graph_nodes:
  fixes ss :: "'p story_step list"
  shows "graph_nodes (steps_graph ss) = step_id ` set ss"
proof -
  let ?val = "\<lambda>s :: 'p story_step.
      map step_id (defaultdict_get (group_by_start_checkpoint ss) (end_checkpoint_name s))"
  have vals: "set ks \<subseteq> step_id ` set ss" if "(k, ks) \<in> set (steps_graph ss)" for k ks
  proof -
    have "set (steps_graph ss) \<subseteq> set [] \<union> (\<lambda>s. (step_id s, ?val s)) ` set ss"
      unfolding steps_graph_def by (rule fold_update_entries)
    with that have "(k, ks) \<in> (\<lambda>s. (step_id s, ?val s)) ` set ss" by auto
    then obtain s where "ks = ?val s" by auto
    then show ?thesis by (auto simp: group_by_start_checkpoint_get)
  qed
  have "(\<Union>ks \<in> set (map snd (steps_graph ss)). set ks) \<subseteq> step_id ` set ss"
  proof
    fix x assume "x \<in> (\<Union>ks \<in> set (map snd (steps_graph ss)). set ks)"
    then obtain k ks where "(k, ks) \<in> set (steps_graph ss)" "x \<in> set ks" by auto
    with vals[of k ks] show "x \<in> step_id ` set ss" by blast
  qed
  with steps_graph_keys[of ss] show ?thesis
    unfolding graph_nodes_def by blast
qed

text \<open>
  C3. For every list of steps, the empty one included, and for every order in which the
  set of unprocessed nodes hands out its elements, the sequence returned by \<open>order_steps\<close>
  has no duplicates and contains exactly the identities of the input steps.
\<close>

theorem order_steps_each_id_once:
  "distinct (fst (order_steps sel ss))
   \<and> set (fst (order_steps sel ss)) = step_id ` set ss"
proof -
  let ?g = "steps_graph ss"
  have "set (map fst ?g) \<subseteq> set (fst (topological_sort sel ?g))"
    by (rule topological_sort_inv(2))
  moreover have "set (fst (topological_sort sel ?g)) \<subseteq> graph_nodes ?g"
    by (rule topological_sort_inv(3))
  ultimately have "set (fst (topological_sort sel ?g)) = step_id ` set ss"
    unfolding steps_graph_keys steps_graph_nodes by blast
  then show ?thesis
    by (simp add: order_steps_graph topological_sort_distinct)
qed

section \<open>The three-node cycle\<close>

text \<open>
  A sequence is a topological order of a graph when it lists the keys of the graph, each
  once, and every edge goes forward in it. \<open>remove_edge\<close> deletes one edge from the
  adjacency.
\<close>

definition is_topological_order :: "'n graph \<Rightarrow> 'n list \<Rightarrow> bool" where
  "is_topological_order graph xs \<longleftrightarrow>
     distinct xs \<and> set xs = set (map fst graph) \<and>
     list_all (\<lambda>(u, vs). list_all (\<lambda>v. precedes u v xs) vs) graph"

definition remove_edge :: "'n \<times> 'n \<Rightarrow> 'n graph \<Rightarrow> 'n graph" where
  "remove_edge e graph =
     map (\<lambda>(u, vs). (u, if u = fst e then removeAll (snd e) vs else vs)) graph"

definition cycle3 :: "'n \<Rightarrow> 'n \<Rightarrow> 'n \<Rightarrow> 'n graph" where
  "cycle3 a b c = [(a, [b]), (b, [c]), (c, [a])]"

lemma cycle3_sort:
  assumes "a \<noteq> b" "b \<noteq> c" "c \<noteq> a"
  shows "topological_sort sel (cycle3 a b c) =
     (if sel [a, b, c] mod 3 = 0 then ([a, b, c], {(c, a)})
      else if sel [a, b, c] mod 3 = 1 then ([b, c, a], {(a, b)})
      else ([c, a, b], {(b, c)}))"
proof -
  have ne: "b \<noteq> a" "c \<noteq> b" "a \<noteq> c" using assms by auto
  have "sel [a, b, c] mod 3 = 0 \<or> sel [a, b, c] mod 3 = 1 \<or> sel [a, b, c] mod 3 = 2"
    by arith
  then show ?thesis
  proof (elim disjE)
    assume i: "sel [a, b, c] mod 3 = 0"
    show ?thesis
      using assms ne i
      by (simp add: topological_sort_def cycle3_def sort_loop.simps set_pop_def dfs.simps
            graph_get_def set_discard_def Let_def)
  next
    assume i: "sel [a, b, c] mod 3 = 1"
    show ?thesis
      using assms ne i
      by (simp add: topological_sort_def cycle3_def sort_loop.simps set_pop_def dfs.simps
            graph_get_def set_discard_def Let_def)
  next
    assume i: "sel [a, b, c] mod 3 = 2"
    show ?thesis
      using assms ne i
      by (simp add: topological_sort_def cycle3_def sort_loop.simps set_pop_def dfs.simps
            graph_get_def set_discard_def Let_def)
  qed
qed

lemma cycle3_cut_order:
  assumes "a \<noteq> b" "b \<noteq> c" "c \<noteq> a"
  shows "is_topological_order (remove_edge (c, a) (cycle3 a b c)) [a, b, c]"
proof -
  have ne: "b \<noteq> a" "c \<noteq> b" "a \<noteq> c" using assms by auto
  show ?thesis
    using assms ne
    by (auto simp: is_topological_order_def remove_edge_def cycle3_def precedes_def)
qed

text \<open>
  C5. For the cycle \<open>a \<rightarrow> b \<rightarrow> c \<rightarrow> a\<close> on three different nodes and every pop
  order, \<open>topological_sort\<close> returns exactly one removed edge, one of the three edges of the
  cycle, and the returned sequence is a topological order of the graph without that edge.
  Which edge it is depends on the node popped first: each of the three is returned for
  some pop order.
\<close>

theorem three_cycle_one_back_edge:
  assumes "a \<noteq> b" "b \<noteq> c" "c \<noteq> a"
  shows "(\<exists>e \<in> {(a, b), (b, c), (c, a)}.
            snd (topological_sort sel (cycle3 a b c)) = {e}
            \<and> is_topological_order (remove_edge e (cycle3 a b c))
                  (fst (topological_sort sel (cycle3 a b c))))
         \<and> snd (topological_sort (\<lambda>_. 0) (cycle3 a b c)) = {(c, a)}
         \<and> snd (topological_sort (\<lambda>_. 1) (cycle3 a b c)) = {(a, b)}
         \<and> snd (topological_sort (\<lambda>_. 2) (cycle3 a b c)) = {(b, c)}"
proof -
  note s = cycle3_sort[OF assms]
  have o0: "is_topological_order (remove_edge (c, a) (cycle3 a b c)) [a, b, c]"
    using assms by (rule cycle3_cut_order)
  have ne: "b \<noteq> a" "c \<noteq> b" "a \<noteq> c" using assms by auto
  have o1: "is_topological_order (remove_edge (a, b) (cycle3 a b c)) [b, c, a]"
    using assms ne
    by (auto simp: is_topological_order_def remove_edge_def cycle3_def precedes_def)
  have o2: "is_topological_order (remove_edge (b, c) (cycle3 a b c)) [c, a, b]"
    using assms ne
    by (auto simp: is_topological_order_def remove_edge_def cycle3_def precedes_def)
  have "sel [a, b, c] mod 3 = 0 \<or> sel [a, b, c] mod 3 = 1 \<or> sel [a, b, c] mod 3 = 2"
    by arith
  then have "\<exists>e \<in> {(a, b), (b, c), (c, a)}.
            snd (topological_sort sel (cycle3 a b c)) = {e}
            \<and> is_topological_order (remove_edge e (cycle3 a b c))
                  (fst (topological_sort sel (cycle3 a b c)))"
  proof (elim disjE)
    assume "sel [a, b, c] mod 3 = 0"
    then show ?thesis using o0 by (simp add: s)
  next
    assume "sel [a, b, c] mod 3 = 1"
    then show ?thesis using o1 by (simp add: s)
  next
    assume "sel [a, b, c] mod 3 = 2"
    then show ?thesis using o2 by (simp add: s)
  qed
  then show ?thesis by (simp add: s)
qed

theorem three_cycle_one_back_edge_witness:
  "''A'' \<noteq> ''B'' \<and> ''B'' \<noteq> ''C'' \<and> ''C'' \<noteq> ''A''
   \<and> (\<exists>e \<in> {(''A'', ''B''), (''B'', ''C''), (''C'', ''A'')}.
          snd (topological_sort (\<lambda>_. 0) (cycle3 ''A'' ''B'' ''C'')) = {e}
          \<and> is_topological_order (remove_edge e (cycle3 ''A'' ''B'' ''C''))
                (fst (topological_sort (\<lambda>_. 0) (cycle3 ''A'' ''B'' ''C''))))"
proof -
  have h: "''A'' \<noteq> ''B''" "''B'' \<noteq> ''C''" "''C'' \<noteq> ''A''" by simp_all
  from three_cycle_one_back_edge[OF h, of "\<lambda>_. 0"] h show ?thesis by blast
qed

section \<open>Properties of the story enumeration\<close>

lemma topological_sort_empty: "topological_sort sel [] = ([], {})"
  by (simp add: topological_sort_def sort_loop.simps)

lemma order_steps_empty: "order_steps sel [] = ([], {})"
  by (simp add: order_steps_def group_by_start_checkpoint_def topological_sort_empty)

text \<open>
  C2. A graph built from zero steps has an empty ordering and no cyclic edges, but
  \<open>build_stories\<close> on it does not return the empty list: no step creates an entry for the
  end sentinel \<open>None\<close>, the dictionary still holds the start sentinel only, and the final
  lookup \<open>active_trackers[None]\<close> raises \<open>KeyError\<close>.
\<close>

theorem build_stories_zero_steps_raises:
  "ordered_ids (graphs (fst (StoryGraph_init sel st [] None)) (snd (StoryGraph_init sel st [] None))) = []
   \<and> cyclic_edge_ids (graphs (fst (StoryGraph_init sel st [] None)) (snd (StoryGraph_init sel st [] None))) = {}
   \<and> build_stories env (fst (StoryGraph_init sel st [] None)) (snd (StoryGraph_init sel st [] None))
        domain max_number_of_trackers = Inl KeyError"
  by (simp add: StoryGraph_init_def StoryGraph_init_refs_def new_step_list_def new_name_list_def
        order_steps_empty build_stories_def ordered_steps_def Let_def)

text \<open>What one step does to the dictionary of frontiers, in closed form.\<close>

definition step_trackers ::
  "('p, 'd, 'ev, 'r) collaborators \<Rightarrow> 'p store \<Rightarrow> 'd \<Rightarrow> nat \<Rightarrow> story list \<Rightarrow> story list" where
  "step_trackers env st domain step incoming_trackers =
     (if explicit_events env (steps st step) domain \<noteq> []
      then map (\<lambda>tracker. tracker @ [step]) incoming_trackers else [])"

lemma build_step_skipped:
  assumes "map_of active (start_checkpoint_name (steps st step)) = None"
  shows "build_step env st domain m step (active, rand) = (active, rand)"
  using assms by (simp add: build_step_def)

lemma build_step_processed:
  assumes "map_of active (start_checkpoint_name (steps st step)) = Some incoming"
  shows "build_step env st domain m step (active, rand) =
     (AList.update (end_checkpoint_name (steps st step))
        (defaultdict_get active (end_checkpoint_name (steps st step))
           @ step_trackers env st domain step (fst (subsample_incoming env m incoming rand)))
        active,
      snd (subsample_incoming env m incoming rand))"
proof (cases "map_of active (end_checkpoint_name (steps st step))")
  case None
  then have "defaultdict_get active (end_checkpoint_name (steps st step)) = []"
    by (simp add: defaultdict_get_def)
  with None assms show ?thesis
    by (simp add: build_step_def step_trackers_def Let_def defaultdict_get_update
          split: prod.splits)
next
  case (Some v)
  with assms show ?thesis
    by (simp add: build_step_def step_trackers_def Let_def split: prod.splits)
qed

lemma build_step_get:
  "defaultdict_get (fst (build_step env st domain m step (active, rand))) c =
     (case map_of active (start_checkpoint_name (steps st step)) of
        None \<Rightarrow> defaultdict_get active c
      | Some incoming \<Rightarrow>
          if c = end_checkpoint_name (steps st step)
          then defaultdict_get active c
                 @ step_trackers env st domain step (fst (subsample_incoming env m incoming rand))
          else defaultdict_get active c)"
proof (cases "map_of active (start_checkpoint_name (steps st step))")
  case None
  then show ?thesis by (simp add: build_step_skipped)
next
  case (Some incoming)
  then show ?thesis by (simp add: build_step_processed defaultdict_get_update)
qed

lemma build_step_keys:
  "map_of active c \<noteq> None \<Longrightarrow>
     map_of (fst (build_step env st domain m step (active, rand))) c \<noteq> None"
proof (cases "map_of active (start_checkpoint_name (steps st step))")
  case None
  assume "map_of active c \<noteq> None"
  with None show ?thesis by (simp add: build_step_skipped)
next
  case (Some incoming)
  assume "map_of active c \<noteq> None"
  with Some show ?thesis by (simp add: build_step_processed update_conv')
qed

text \<open>
  C8. A step whose event list is empty leaves every frontier as it was: for every
  checkpoint, the end checkpoint of the step included, the list of partial stories held
  for it (empty when there is no entry) is the same before and after the step.
\<close>

theorem build_step_zero_events_adds_nothing:
  assumes "explicit_events env (steps st step) domain = []"
  shows "defaultdict_get (fst (build_step env st domain m step (active, rand))) c
           = defaultdict_get active c"
  using assms by (simp add: build_step_get step_trackers_def split: option.splits)

text \<open>The loop over resolved steps is a fold of \<open>build_step\<close>.\<close>

lemma build_loop_Some:
  "build_loop env st domain m (map Some rs) acc
     = Inr (foldl (\<lambda>a r. build_step env st domain m r a) acc rs)"
  by (induction rs arbitrary: acc) simp_all

lemma build_loop_append_Some:
  "build_loop env st domain m (map Some rs @ xs) acc
     = build_loop env st domain m xs (foldl (\<lambda>a r. build_step env st domain m r a) acc rs)"
  by (induction rs arbitrary: acc) simp_all

lemma build_fold_keys:
  "map_of (fst acc) c \<noteq> None \<Longrightarrow>
     map_of (fst (foldl (\<lambda>a r. build_step env st domain m r a) acc rs)) c \<noteq> None"
proof (induction rs arbitrary: acc)
  case Nil
  then show ?case by simp
next
  case (Cons r rs)
  obtain active rand where acc: "acc = (active, rand)" by (cases acc)
  with Cons.prems have "map_of (fst (build_step env st domain m r acc)) c \<noteq> None"
    by (simp add: build_step_keys)
  from Cons.IH[OF this] show ?case by simp
qed

lemma build_step_end_key:
  assumes "map_of active (start_checkpoint_name (steps st step)) \<noteq> None"
  shows "map_of (fst (build_step env st domain m step (active, rand)))
           (end_checkpoint_name (steps st step)) \<noteq> None"
proof -
  from assms obtain incoming where
    "map_of active (start_checkpoint_name (steps st step)) = Some incoming" by blast
  then show ?thesis by (simp add: build_step_processed update_conv')
qed

lemma build_fold_later_step:
  assumes "map_of (fst acc) (start_checkpoint_name (steps st s2)) \<noteq> None" and "s2 \<in> set rs"
  shows "map_of (fst (foldl (\<lambda>a r. build_step env st domain m r a) acc rs))
           (end_checkpoint_name (steps st s2)) \<noteq> None"
proof -
  from assms(2) obtain pre post where rs: "rs = pre @ s2 # post" by (meson split_list)
  let ?a1 = "foldl (\<lambda>a r. build_step env st domain m r a) acc pre"
  obtain active rand where a1: "?a1 = (active, rand)" by (cases ?a1)
  have "map_of (fst ?a1) (start_checkpoint_name (steps st s2)) \<noteq> None"
    using assms(1) by (rule build_fold_keys)
  with a1 have "map_of (fst (build_step env st domain m s2 ?a1))
      (end_checkpoint_name (steps st s2)) \<noteq> None"
    by (simp add: build_step_end_key)
  then have "map_of (fst (foldl (\<lambda>a r. build_step env st domain m r a)
      (build_step env st domain m s2 ?a1) post)) (end_checkpoint_name (steps st s2)) \<noteq> None"
    by (rule build_fold_keys)
  then show ?thesis by (simp add: rs)
qed

lemma build_fold_no_stories:
  assumes "defaultdict_get (fst acc) c = []"
    and "\<forall>r \<in> set rs. end_checkpoint_name (steps st r) = c \<longrightarrow>
           explicit_events env (steps st r) domain = []"
  shows "defaultdict_get (fst (foldl (\<lambda>a r. build_step env st domain m r a) acc rs)) c = []"
  using assms
proof (induction rs arbitrary: acc)
  case Nil
  then show ?case by simp
next
  case (Cons r rs)
  obtain active rand where acc: "acc = (active, rand)" by (cases acc)
  have "defaultdict_get (fst (build_step env st domain m r acc)) c = []"
    using Cons.prems unfolding acc
    by (auto simp: build_step_get step_trackers_def split: option.splits)
  from Cons.IH[OF this] Cons.prems(2) show ?case by simp
qed

text \<open>
  C10. A step whose start checkpoint has a frontier entry when the step is reached leaves
  an entry for its end checkpoint, also when it has no events, in which case an entry that
  was missing is created empty. The entry stays: after the rest of the loop it is still
  there, and every later step that starts at that checkpoint has been processed, as the
  entry for its own end checkpoint shows. If the end checkpoint is the end sentinel
  \<open>None\<close>, the final lookup of \<open>build_stories\<close> finds the entry and a list is returned;
  the list is empty when no step that ends at the sentinel has events.
\<close>

theorem build_step_creates_end_entry:
  assumes "map_of active (start_checkpoint_name (steps st step)) = Some incoming"
  shows "map_of (fst (build_step env st domain m step (active, rand)))
           (end_checkpoint_name (steps st step)) \<noteq> None
    \<and> (explicit_events env (steps st step) domain = [] \<longrightarrow>
         map_of active (end_checkpoint_name (steps st step)) = None \<longrightarrow>
         map_of (fst (build_step env st domain m step (active, rand)))
           (end_checkpoint_name (steps st step)) = Some [])
    \<and> (\<exists>active' rand'.
          build_loop env st domain m (Some step # map Some rest) (active, rand)
            = Inr (active', rand')
          \<and> map_of active' (end_checkpoint_name (steps st step)) \<noteq> None
          \<and> (\<forall>s2 \<in> set rest.
                start_checkpoint_name (steps st s2) = end_checkpoint_name (steps st step) \<longrightarrow>
                map_of active' (end_checkpoint_name (steps st s2)) \<noteq> None))
    \<and> (ordered_steps (graphs st self) = map Some pre @ Some step # map Some post \<longrightarrow>
        build_loop env st domain m (map Some pre)
          ([(Some (STORY_START env), [[]])], Random env 42) = Inr (active, rand) \<longrightarrow>
        end_checkpoint_name (steps st step) = None \<longrightarrow>
        (\<exists>stories. build_stories env st self domain m = Inr stories
           \<and> ((\<forall>r \<in> set (pre @ step # post). end_checkpoint_name (steps st r) = None \<longrightarrow>
                 explicit_events env (steps st r) domain = []) \<longrightarrow> stories = [])))"
proof (intro conjI impI)
  let ?f = "\<lambda>a r. build_step env st domain m r a"
  let ?e = "end_checkpoint_name (steps st step)"
  let ?a1 = "build_step env st domain m step (active, rand)"
  from assms have present: "map_of active (start_checkpoint_name (steps st step)) \<noteq> None"
    by simp
  show key1: "map_of (fst ?a1) ?e \<noteq> None"
    using present by (rule build_step_end_key)
  {
    assume "explicit_events env (steps st step) domain = []" and "map_of active ?e = None"
    then show "map_of (fst ?a1) ?e = Some []"
      using assms
      by (simp add: build_step_processed update_conv' step_trackers_def defaultdict_get_def)
  }
  {
    let ?fin = "foldl ?f ?a1 rest"
    have loop: "build_loop env st domain m (Some step # map Some rest) (active, rand)
                  = Inr (fst ?fin, snd ?fin)"
      by (simp add: build_loop_Some)
    have k: "map_of (fst ?fin) ?e \<noteq> None"
      using key1 by (rule build_fold_keys)
    have later: "\<forall>s2 \<in> set rest. start_checkpoint_name (steps st s2) = ?e \<longrightarrow>
        map_of (fst ?fin) (end_checkpoint_name (steps st s2)) \<noteq> None"
    proof (intro ballI impI)
      fix s2 assume s2: "s2 \<in> set rest" and "start_checkpoint_name (steps st s2) = ?e"
      with key1 have "map_of (fst ?a1) (start_checkpoint_name (steps st s2)) \<noteq> None" by simp
      from build_fold_later_step[OF this s2]
      show "map_of (fst ?fin) (end_checkpoint_name (steps st s2)) \<noteq> None" .
    qed
    from loop k later
    show "\<exists>active' rand'.
          build_loop env st domain m (Some step # map Some rest) (active, rand)
            = Inr (active', rand')
          \<and> map_of active' ?e \<noteq> None
          \<and> (\<forall>s2 \<in> set rest. start_checkpoint_name (steps st s2) = ?e \<longrightarrow>
                map_of active' (end_checkpoint_name (steps st s2)) \<noteq> None)"
      by blast
  }
  {
    let ?init = "([(Some (STORY_START env), [[]])], Random env 42)"
    let ?fin = "foldl ?f ?a1 post"
    assume ord: "ordered_steps (graphs st self) = map Some pre @ Some step # map Some post"
      and pre: "build_loop env st domain m (map Some pre) ?init = Inr (active, rand)"
      and e: "?e = None"
    from pre have pre': "foldl ?f ?init pre = (active, rand)" by (simp add: build_loop_Some)
    have loop: "build_loop env st domain m (ordered_steps (graphs st self)) ?init = Inr ?fin"
      unfolding ord by (simp add: build_loop_append_Some pre' build_loop_Some)
    have "map_of (fst ?fin) None \<noteq> None"
      using key1 unfolding e by (rule build_fold_keys)
    then obtain stories where stories: "map_of (fst ?fin) None = Some stories" by blast
    obtain fa fr where fin: "?fin = (fa, fr)" by (cases ?fin)
    have res: "build_stories env st self domain m = Inr stories"
      using stories loop unfolding fin by (simp add: build_stories_def Let_def)
    have "stories = []"
      if none: "\<forall>r \<in> set (pre @ step # post). end_checkpoint_name (steps st r) = None \<longrightarrow>
                 explicit_events env (steps st r) domain = []"
    proof -
      have "defaultdict_get (fst ?init) None = []" by (simp add: defaultdict_get_def)
      from build_fold_no_stories[OF this none, of m]
      have "defaultdict_get (fst ?fin) None = []" by (simp add: pre')
      with stories show ?thesis by (simp add: defaultdict_get_def)
    qed
    with res
    show "\<exists>stories. build_stories env st self domain m = Inr stories
           \<and> ((\<forall>r \<in> set (pre @ step # post). end_checkpoint_name (steps st r) = None \<longrightarrow>
                 explicit_events env (steps st r) domain = []) \<longrightarrow> stories = [])"
      by blast
  }
qed

section \<open>A small run\<close>

text \<open>
  Two step objects from the start sentinel to the end sentinel: step 0 has no events,
  step 1 has one. The payload of a step is its event list, the generator state is a
  counter and its shuffle reverses the list. The graph at address 0 is built from step 0.
\<close>

definition example_env :: "(nat list, unit, nat, nat) collaborators" where
  "example_env =
     \<lparr>STORY_START = ''STORY_START'', Random = nat,
      subsample_array = spec_subsample_array (\<lambda>r xs. (rev xs, Suc r)),
      explicit_events = (\<lambda>s d. payload s)\<rparr>"

definition example_steps :: "nat \<Rightarrow> nat list story_step" where
  "example_steps r =
     (if r = 0
      then \<lparr>step_id = ''S0'', start_checkpoint = Some ''STORY_START'', end_checkpoint = None,
            payload = []\<rparr>
      else \<lparr>step_id = ''S1'', start_checkpoint = Some ''STORY_START'', end_checkpoint = None,
            payload = [7]\<rparr>)"

definition example_store :: "nat list store" where
  "example_store =
     fst (StoryGraph_init (\<lambda>_. 0)
            \<lparr>steps = example_steps, n_steps = 2,
             graphs = (\<lambda>_. \<lparr>story_steps = 0, step_lookup = [], ordered_ids = [],
                            cyclic_edge_ids = {}, story_end_checkpoints = 0\<rparr>),
             n_graphs = 0, step_lists = (\<lambda>_. []), n_step_lists = 0,
             name_lists = (\<lambda>_. []), n_name_lists = 0, n_ids = 0\<rparr>
            [0] None)"

lemmas init_simps =
  StoryGraph_init_def StoryGraph_init_refs_def new_step_list_def new_name_list_def Let_def

lemma example_store_steps: "steps example_store = example_steps"
  by (simp add: example_store_def init_simps split: prod.splits)

lemma example_store_graph:
  "graphs example_store 0 =
     \<lparr>story_steps = 0, step_lookup = [(''S0'', 0)], ordered_ids = [''S0''],
      cyclic_edge_ids = {}, story_end_checkpoints = 0\<rparr>"
  "step_lists example_store 0 = [0]" "name_lists example_store 0 = []"
  by (simp_all add: example_store_def init_simps example_steps_def
        order_steps_def group_by_start_checkpoint_def defaultdict_get_def
        start_checkpoint_name_def end_checkpoint_name_def
        topological_sort_def sort_loop.simps set_pop_def dfs.simps graph_get_def)

lemma example_ordered_steps: "ordered_steps (graphs example_store 0) = [Some 0]"
  by (simp add: example_store_graph(1) ordered_steps_def get_def)

theorem build_step_zero_events_adds_nothing_witness:
  "explicit_events example_env (steps example_store 0) () = []
   \<and> defaultdict_get
        (fst (build_step example_env example_store () None 0
                ([(Some ''STORY_START'', [[]])], 42))) None = []"
proof -
  have h: "explicit_events example_env (steps example_store 0) () = []"
    by (simp add: example_env_def example_store_steps example_steps_def)
  from build_step_zero_events_adds_nothing[OF h, of None "[(Some ''STORY_START'', [[]])]" 42 None]
  have "defaultdict_get
        (fst (build_step example_env example_store () None 0
                ([(Some ''STORY_START'', [[]])], 42))) None = []"
    by (simp add: defaultdict_get_def)
  with h show ?thesis by blast
qed

theorem build_step_creates_end_entry_witness:
  "map_of [(Some ''STORY_START'', [[]])] (start_checkpoint_name (steps example_store 0))
     = Some [[]]
   \<and> build_stories example_env example_store 0 () None = Inr []"
proof -
  have h: "map_of [(Some ''STORY_START'', [[]])] (start_checkpoint_name (steps example_store 0))
     = Some [[]]"
    by (simp add: example_store_steps example_steps_def start_checkpoint_name_def)
  have ord: "ordered_steps (graphs example_store 0) = map Some [] @ Some 0 # map Some []"
    by (simp add: example_ordered_steps)
  have pre: "build_loop example_env example_store () None (map Some [])
          ([(Some (STORY_START example_env), [[]])], Random example_env 42)
        = Inr ([(Some ''STORY_START'', [[]])], 42)"
    by (simp add: example_env_def)
  have e: "end_checkpoint_name (steps example_store 0) = None"
    by (simp add: example_store_steps example_steps_def end_checkpoint_name_def)
  have none: "\<forall>r \<in> set ([] @ 0 # []). end_checkpoint_name (steps example_store r) = None \<longrightarrow>
                 explicit_events example_env (steps example_store r) () = []"
    by (simp add: example_env_def example_store_steps example_steps_def)
  from build_step_creates_end_entry[OF h, of example_env "()" None 42 "[]" 0 "[]" "[]"]
    ord pre e none
  have "build_stories example_env example_store 0 () None = Inr []" by blast
  with h show ?thesis by blast
qed

section \<open>Cycle breaking on the three-step cycle\<close>

lemma precedes_in_set: "precedes u v xs \<Longrightarrow> u \<in> set xs \<and> v \<in> set xs"
  by (auto simp: precedes_iff)

lemma precedes_irrefl: "distinct xs \<Longrightarrow> \<not> precedes u u xs"
  by (auto simp: precedes_iff)

lemma precedes_trans:
  "distinct xs \<Longrightarrow> precedes u v xs \<Longrightarrow> precedes v w xs \<Longrightarrow> precedes u w xs"
proof (induction xs)
  case Nil
  then show ?case by (simp add: precedes_def)
next
  case (Cons x xs)
  show ?case
  proof (cases "x = u")
    case True
    with Cons.prems(2) have v: "v \<in> set xs" by (simp add: precedes_Cons_same)
    with Cons.prems(1) True have "x \<noteq> v" by auto
    with Cons.prems(3) have "precedes v w xs" by (simp add: precedes_Cons_other)
    then have "w \<in> set xs" by (simp add: precedes_in_set)
    with True show ?thesis by (simp add: precedes_Cons_same)
  next
    case False
    with Cons.prems(2) have uv: "precedes u v xs" by (simp add: precedes_Cons_other)
    then have "v \<in> set xs" by (simp add: precedes_in_set)
    with Cons.prems(1) have "x \<noteq> v" by auto
    with Cons.prems(3) have "precedes v w xs" by (simp add: precedes_Cons_other)
    with Cons.IH uv Cons.prems(1) have "precedes u w xs" by simp
    with False show ?thesis by (simp add: precedes_Cons_other)
  qed
qed

lemma topological_sort_edge:
  assumes "v \<in> set (graph_get graph u)"
  shows "(u, v) \<in> snd (topological_sort sel graph)
         \<or> precedes u v (fst (topological_sort sel graph))"
proof -
  from assms obtain ks where "map_of graph u = Some ks"
    by (cases "map_of graph u") (auto simp: graph_get_def)
  then have "(u, ks) \<in> set graph" by (rule map_of_SomeD)
  then have "u \<in> set (map fst graph)" by force
  with topological_sort_inv(2)[of graph sel]
  have "u \<in> set (fst (topological_sort sel graph))" by blast
  from topological_sort_edges[OF this assms] show ?thesis .
qed

text \<open>A graph with a cycle through three nodes always has a removed edge.\<close>

lemma cycle_has_removed_edge:
  assumes "y \<in> set (graph_get graph x)" "z \<in> set (graph_get graph y)"
    "x \<in> set (graph_get graph z)"
  shows "snd (topological_sort sel graph) \<noteq> {}"
proof
  assume none: "snd (topological_sort sel graph) = {}"
  let ?ord = "fst (topological_sort sel graph)"
  have d: "distinct ?ord" by (rule topological_sort_distinct)
  from topological_sort_edge[OF assms(1), of sel] none have xy: "precedes x y ?ord" by simp
  from topological_sort_edge[OF assms(2), of sel] none have yz: "precedes y z ?ord" by simp
  from topological_sort_edge[OF assms(3), of sel] none have zx: "precedes z x ?ord" by simp
  from precedes_trans[OF d precedes_trans[OF d xy yz] zx] have "precedes x x ?ord" .
  with precedes_irrefl[OF d] show False by blast
qed

text \<open>
  Three steps \<open>A\<close>, \<open>B\<close>, \<open>C\<close> in a cycle of checkpoints, at the addresses 0, 1 and 2.
  The identifiers handed out are \<open>x\<close>, \<open>xx\<close>, \<open>xxx\<close>, and a set of one edge is iterated
  as that edge.
\<close>

definition cycle_steps :: "nat \<Rightarrow> unit story_step" where
  "cycle_steps r =
     (if r = 0 then \<lparr>step_id = ''A'', start_checkpoint = Some ''c1'',
                     end_checkpoint = Some ''c2'', payload = ()\<rparr>
      else if r = 1 then \<lparr>step_id = ''B'', start_checkpoint = Some ''c2'',
                          end_checkpoint = Some ''c3'', payload = ()\<rparr>
      else \<lparr>step_id = ''C'', start_checkpoint = Some ''c3'',
            end_checkpoint = Some ''c1'', payload = ()\<rparr>)"

definition cycle_store0 :: "unit store" where
  "cycle_store0 =
     \<lparr>steps = cycle_steps, n_steps = 3,
      graphs = (\<lambda>_. \<lparr>story_steps = 0, step_lookup = [], ordered_ids = [],
                     cyclic_edge_ids = {}, story_end_checkpoints = 0\<rparr>),
      n_graphs = 0, step_lists = (\<lambda>_. []), n_step_lists = 0,
      name_lists = (\<lambda>_. []), n_name_lists = 0, n_ids = 0\<rparr>"

definition cycle_store :: "string chooser \<Rightarrow> unit store" where
  "cycle_store sel = fst (StoryGraph_init sel cycle_store0 [0, 1, 2] None)"

definition example_uuid :: "nat \<Rightarrow> string" where
  "example_uuid n = replicate (Suc n) CHR ''x''"

definition example_iter :: "(string \<times> string) set \<Rightarrow> (string \<times> string) list" where
  "example_iter S =
     (if (''C'', ''A'') \<in> S then [(''C'', ''A'')]
      else if (''A'', ''B'') \<in> S then [(''A'', ''B'')]
      else if (''B'', ''C'') \<in> S then [(''B'', ''C'')] else [])"

lemma cycle_steps_graph: "steps_graph (map cycle_steps [0, 1, 2]) = cycle3 ''A'' ''B'' ''C''"
  by (simp add: steps_graph_def cycle_steps_def cycle3_def group_by_start_checkpoint_get
        end_checkpoint_name_def start_checkpoint_name_def)

lemma cycle_order:
  "order_steps sel (map cycle_steps [0, 1, 2]) =
     (if sel [''A'', ''B'', ''C''] mod 3 = 0 then ([''A'', ''B'', ''C''], {(''C'', ''A'')})
      else if sel [''A'', ''B'', ''C''] mod 3 = 1 then ([''B'', ''C'', ''A''], {(''A'', ''B'')})
      else ([''C'', ''A'', ''B''], {(''B'', ''C'')}))"
  unfolding order_steps_graph cycle_steps_graph
  by (rule cycle3_sort) simp_all

lemma cycle_store_graph:
  "graphs (cycle_store sel) 0 =
     \<lparr>story_steps = 0, step_lookup = [(''A'', 0), (''B'', 1), (''C'', 2)],
      ordered_ids = fst (order_steps sel (map cycle_steps [0, 1, 2])),
      cyclic_edge_ids = snd (order_steps sel (map cycle_steps [0, 1, 2])),
      story_end_checkpoints = 0\<rparr>"
  "steps (cycle_store sel) = cycle_steps"
  "n_steps (cycle_store sel) = 3" "n_graphs (cycle_store sel) = 1" "n_ids (cycle_store sel) = 0"
  "step_lists (cycle_store sel) 0 = [0, 1, 2]" "n_step_lists (cycle_store sel) = 1"
  "name_lists (cycle_store sel) 0 = []" "n_name_lists (cycle_store sel) = 1"
  by (simp_all add: cycle_store_def init_simps cycle_store0_def cycle_steps_def
        split: prod.splits)

definition mk_step :: "string \<Rightarrow> string \<Rightarrow> string \<Rightarrow> unit story_step" where
  "mk_step i s e = \<lparr>step_id = i, start_checkpoint = Some s, end_checkpoint = Some e, payload = ()\<rparr>"

lemma cycle_store_edges:
  "cyclic_edge_ids (graphs (cycle_store sel) 0) =
     (if sel [''A'', ''B'', ''C''] mod 3 = 0 then {(''C'', ''A'')}
      else if sel [''A'', ''B'', ''C''] mod 3 = 1 then {(''A'', ''B'')}
      else {(''B'', ''C'')})"
  "story_steps (graphs (cycle_store sel) 0) = 0"
  "step_lookup (graphs (cycle_store sel) 0) = [(''A'', 0), (''B'', 1), (''C'', 2)]"
  "story_end_checkpoints (graphs (cycle_store sel) 0) = 0"
  unfolding cycle_store_graph(1) cycle_order by simp_all

lemmas rewrite_simps =
  with_cycles_removed_def cycle_store_edges cycle_store_graph(2-) cyclic_edges_def
  example_iter_def get_def generate_id_def create_copy_def example_uuid_def
  add_changed_step_def step_list_append_def name_list_append_def
  StoryGraph_init_refs_def new_step_list_def new_name_list_def Let_def
  cycle_steps_def mk_step_def case_prod_unfold

lemma rewritten_0:
  assumes "sel [''A'', ''B'', ''C''] mod 3 = 0"
  shows "snd (with_cycles_removed example_uuid example_iter sel (cycle_store sel) 0) = Inr 1"
    and "cyclic_edge_ids (graphs (fst (with_cycles_removed example_uuid example_iter sel
             (cycle_store sel) 0)) 1)
         = snd (order_steps sel
             [mk_step ''A'' ''c1'' ''c2'', mk_step ''B'' ''c2'' ''c3'',
              mk_step ''xx'' ''c3'' ''CYCLE_x'', mk_step ''xxx'' ''CYCLE_x'' ''c2''])"
  using assms by (simp_all add: rewrite_simps)

lemma rewritten_1:
  assumes "sel [''A'', ''B'', ''C''] mod 3 = 1"
  shows "snd (with_cycles_removed example_uuid example_iter sel (cycle_store sel) 0) = Inr 1"
    and "cyclic_edge_ids (graphs (fst (with_cycles_removed example_uuid example_iter sel
             (cycle_store sel) 0)) 1)
         = snd (order_steps sel
             [mk_step ''B'' ''c2'' ''c3'', mk_step ''C'' ''c3'' ''c1'',
              mk_step ''xx'' ''c1'' ''CYCLE_x'', mk_step ''xxx'' ''CYCLE_x'' ''c3''])"
  using assms by (simp_all add: rewrite_simps)

lemma rewritten_2:
  assumes "sel [''A'', ''B'', ''C''] mod 3 = 2"
  shows "snd (with_cycles_removed example_uuid example_iter sel (cycle_store sel) 0) = Inr 1"
    and "cyclic_edge_ids (graphs (fst (with_cycles_removed example_uuid example_iter sel
             (cycle_store sel) 0)) 1)
         = snd (order_steps sel
             [mk_step ''A'' ''c1'' ''c2'', mk_step ''C'' ''c3'' ''c1'',
              mk_step ''xx'' ''c2'' ''CYCLE_x'', mk_step ''xxx'' ''CYCLE_x'' ''c1''])"
  using assms by (simp_all add: rewrite_simps)

lemmas steps_graph_simps =
  steps_graph_def group_by_start_checkpoint_get mk_step_def graph_get_def
  start_checkpoint_name_def end_checkpoint_name_def

lemma rewritten_0_cycle:
  "snd (order_steps sel
     [mk_step ''A'' ''c1'' ''c2'', mk_step ''B'' ''c2'' ''c3'',
      mk_step ''xx'' ''c3'' ''CYCLE_x'', mk_step ''xxx'' ''CYCLE_x'' ''c2'']) \<noteq> {}"
  unfolding order_steps_graph
  by (rule cycle_has_removed_edge[of "''xx''" _ "''B''" "''xxx''"]) (simp_all add: steps_graph_simps)

lemma rewritten_1_cycle:
  "snd (order_steps sel
     [mk_step ''B'' ''c2'' ''c3'', mk_step ''C'' ''c3'' ''c1'',
      mk_step ''xx'' ''c1'' ''CYCLE_x'', mk_step ''xxx'' ''CYCLE_x'' ''c3'']) \<noteq> {}"
  unfolding order_steps_graph
  by (rule cycle_has_removed_edge[of "''xx''" _ "''C''" "''xxx''"]) (simp_all add: steps_graph_simps)

lemma rewritten_2_cycle:
  "snd (order_steps sel
     [mk_step ''A'' ''c1'' ''c2'', mk_step ''C'' ''c3'' ''c1'',
      mk_step ''xx'' ''c2'' ''CYCLE_x'', mk_step ''xxx'' ''CYCLE_x'' ''c1'']) \<noteq> {}"
  unfolding order_steps_graph
  by (rule cycle_has_removed_edge[of "''xx''" _ "''A''" "''xxx''"]) (simp_all add: steps_graph_simps)

lemma rewritten_first_pop:
  "snd (order_steps (\<lambda>_. 0)
     [mk_step ''A'' ''c1'' ''c2'', mk_step ''B'' ''c2'' ''c3'',
      mk_step ''xx'' ''c3'' ''CYCLE_x'', mk_step ''xxx'' ''CYCLE_x'' ''c2'']) = {(''xxx'', ''B'')}"
  unfolding order_steps_graph
  by (simp add: steps_graph_simps topological_sort_def sort_loop.simps set_pop_def dfs.simps
        set_discard_def)

text \<open>
  C1. On the graph of three steps \<open>A\<close>, \<open>B\<close>, \<open>C\<close> whose checkpoints form a cycle, for
  every pop order: the sort of the graph reports a cyclic edge, \<open>with_cycles_removed\<close>
  returns a new graph, and the sort of the new graph reports a cyclic edge again. The copy
  of the target step starts at the new checkpoint and still ends where the original ends,
  so the cycle now runs through the new checkpoint. When \<open>A\<close> is popped first in both
  sorts, the edge reported for the new graph is the one from the copy of \<open>A\<close> to \<open>B\<close>.
\<close>

theorem with_cycles_removed_leaves_cycle:
  "cyclic_edge_ids (graphs (cycle_store sel) 0) \<noteq> {}
   \<and> snd (with_cycles_removed example_uuid example_iter sel (cycle_store sel) 0) = Inr 1
   \<and> cyclic_edge_ids (graphs (fst (with_cycles_removed example_uuid example_iter sel
         (cycle_store sel) 0)) 1) \<noteq> {}
   \<and> cyclic_edge_ids (graphs (fst (with_cycles_removed example_uuid example_iter (\<lambda>_. 0)
         (cycle_store (\<lambda>_. 0)) 0)) 1) = {(''xxx'', ''B'')}"
proof -
  have first: "cyclic_edge_ids (graphs (cycle_store sel) 0) \<noteq> {}"
    by (simp add: cycle_store_edges)
  have "sel [''A'', ''B'', ''C''] mod 3 = 0 \<or> sel [''A'', ''B'', ''C''] mod 3 = 1
        \<or> sel [''A'', ''B'', ''C''] mod 3 = 2"
    by arith
  then have "snd (with_cycles_removed example_uuid example_iter sel (cycle_store sel) 0) = Inr 1
   \<and> cyclic_edge_ids (graphs (fst (with_cycles_removed example_uuid example_iter sel
         (cycle_store sel) 0)) 1) \<noteq> {}"
  proof (elim disjE)
    assume i: "sel [''A'', ''B'', ''C''] mod 3 = 0"
    show ?thesis unfolding rewritten_0[of sel, OF i] using rewritten_0_cycle by simp
  next
    assume i: "sel [''A'', ''B'', ''C''] mod 3 = 1"
    show ?thesis unfolding rewritten_1[of sel, OF i] using rewritten_1_cycle by simp
  next
    assume i: "sel [''A'', ''B'', ''C''] mod 3 = 2"
    show ?thesis unfolding rewritten_2[of sel, OF i] using rewritten_2_cycle by simp
  qed
  moreover have "cyclic_edge_ids (graphs (fst (with_cycles_removed example_uuid example_iter
         (\<lambda>_. 0) (cycle_store (\<lambda>_. 0)) 0)) 1) = {(''xxx'', ''B'')}"
    using rewritten_0(2)[of "\<lambda>_. 0"] by (simp add: rewritten_first_pop)
  ultimately show ?thesis using first by blast
qed

section \<open>Cycle breaking leaves the receiver alone\<close>

text \<open>
  \<open>frame st st'\<close>: every object allocated in \<open>st\<close> (step, graph, list of steps, list of
  names) is the same in \<open>st'\<close>, and nothing has been deallocated.
\<close>

definition frame :: "'p store \<Rightarrow> 'p store \<Rightarrow> bool" where
  "frame st st' \<longleftrightarrow>
     (\<forall>r < n_steps st. steps st' r = steps st r) \<and> n_steps st \<le> n_steps st' \<and>
     (\<forall>g < n_graphs st. graphs st' g = graphs st g) \<and> n_graphs st \<le> n_graphs st' \<and>
     (\<forall>l < n_step_lists st. step_lists st' l = step_lists st l) \<and>
     n_step_lists st \<le> n_step_lists st' \<and>
     (\<forall>l < n_name_lists st. name_lists st' l = name_lists st l) \<and>
     n_name_lists st \<le> n_name_lists st'"

lemma frame_refl: "frame st st"
  by (simp add: frame_def)

text \<open>Each primitive keeps the frame of a base store \<open>st0\<close>.\<close>

lemma frame_generate_id:
  "frame st0 st \<Longrightarrow> frame st0 (snd (generate_id uuid prefix st))"
  by (simp add: generate_id_def frame_def)

lemma frame_create_copy:
  "frame st0 st \<Longrightarrow> frame st0 (snd (create_copy uuid s st))"
  by (simp add: create_copy_def frame_def)

lemma frame_new_step_list:
  "frame st0 st \<Longrightarrow> frame st0 (snd (new_step_list xs st))"
  by (simp add: new_step_list_def frame_def)

lemma frame_new_name_list:
  "frame st0 st \<Longrightarrow> frame st0 (snd (new_name_list xs st))"
  by (simp add: new_name_list_def frame_def)

lemma frame_write_step:
  "frame st0 st \<Longrightarrow> n_steps st0 \<le> r \<Longrightarrow> frame st0 (st\<lparr>steps := (steps st)(r := v)\<rparr>)"
  by (simp add: frame_def)

lemma frame_step_list_append:
  "frame st0 st \<Longrightarrow> n_step_lists st0 \<le> l \<Longrightarrow> frame st0 (step_list_append l x st)"
  by (simp add: frame_def step_list_append_def)

lemma frame_name_list_append:
  "frame st0 st \<Longrightarrow> n_name_lists st0 \<le> l \<Longrightarrow> frame st0 (name_list_append l x st)"
  by (simp add: frame_def name_list_append_def)

lemma create_copy_fresh:
  "frame st0 st \<Longrightarrow> n_steps st0 \<le> fst (create_copy uuid s st)"
  by (simp add: create_copy_def frame_def)

lemma frame_add_changed_step:
  assumes "frame st0 st" "n_name_lists st0 \<le> end_cps" "n_step_lists st0 \<le> ss"
  shows "frame st0 (fst (add_changed_step uuid s e st end_cps ss))"
proof -
  obtain cid st1 where g: "generate_id uuid ''CYCLE_'' st = (cid, st1)"
    by (cases "generate_id uuid ''CYCLE_'' st")
  from frame_generate_id[OF assms(1), of uuid "''CYCLE_''"] g have f1: "frame st0 st1" by simp
  let ?st2 = "name_list_append end_cps cid st1"
  have f2: "frame st0 ?st2" using f1 assms(2) by (rule frame_name_list_append)
  show ?thesis
  proof (cases s)
    case None
    with g f2 show ?thesis by (simp add: add_changed_step_def)
  next
    case (Some s_ref)
    obtain ms st3 where c1: "create_copy uuid s_ref ?st2 = (ms, st3)"
      by (cases "create_copy uuid s_ref ?st2")
    from frame_create_copy[OF f2, of uuid s_ref] c1 have f3: "frame st0 st3" by simp
    from create_copy_fresh[OF f2, of uuid s_ref] c1 have ms: "n_steps st0 \<le> ms" by simp
    let ?st4 = "st3\<lparr>steps := (steps st3)(ms := (steps st3 ms)\<lparr>end_checkpoint := Some cid\<rparr>)\<rparr>"
    let ?st5 = "step_list_append ss ms ?st4"
    have f4: "frame st0 ?st4" using f3 ms by (rule frame_write_step)
    have f5: "frame st0 ?st5" using f4 assms(3) by (rule frame_step_list_append)
    show ?thesis
    proof (cases e)
      case None
      with Some g c1 f5 show ?thesis by (simp add: add_changed_step_def Let_def)
    next
      case e: (Some e_ref)
      obtain me st6 where c2: "create_copy uuid e_ref ?st5 = (me, st6)"
        by (cases "create_copy uuid e_ref ?st5")
      from frame_create_copy[OF f5, of uuid e_ref] c2 have f6: "frame st0 st6" by simp
      from create_copy_fresh[OF f5, of uuid e_ref] c2 have me: "n_steps st0 \<le> me" by simp
      let ?st7 = "st6\<lparr>steps := (steps st6)(me := (steps st6 me)\<lparr>start_checkpoint := Some cid\<rparr>)\<rparr>"
      have f7: "frame st0 ?st7" using f6 me by (rule frame_write_step)
      have "frame st0 (step_list_append ss me ?st7)"
        using f7 assms(3) by (rule frame_step_list_append)
      with Some e g c1 c2 show ?thesis by (simp add: add_changed_step_def Let_def)
    qed
  qed
qed

lemma frame_add_changed_steps:
  assumes "frame st0 st" "n_name_lists st0 \<le> end_cps" "n_step_lists st0 \<le> ss"
  shows "frame st0 (fst (add_changed_steps uuid edges st end_cps ss))"
  using assms(1)
proof (induction edges arbitrary: st)
  case Nil
  then show ?case by simp
next
  case (Cons edge edges)
  obtain s e where edge: "edge = (s, e)" by (cases edge)
  obtain st' res where b: "add_changed_step uuid s e st end_cps ss = (st', res)"
    by (cases "add_changed_step uuid s e st end_cps ss")
  from frame_add_changed_step[OF Cons.prems assms(2,3), of uuid s e] b
  have f: "frame st0 st'" by simp
  show ?case
  proof (cases res)
    case (Inl err)
    with edge b f show ?thesis by simp
  next
    case (Inr u)
    with edge b Cons.IH[OF f] show ?thesis by simp
  qed
qed

text \<open>
  What the loop leaves in the objects it does not allocate itself: the graphs are
  untouched and no list object is created; when it does not raise, the list of steps has
  grown by the step objects created meanwhile, in the order of their creation.
\<close>

lemma add_changed_step_effect:
  "graphs (fst (add_changed_step uuid s e st end_cps ss)) = graphs st"
  "n_graphs (fst (add_changed_step uuid s e st end_cps ss)) = n_graphs st"
  "n_step_lists (fst (add_changed_step uuid s e st end_cps ss)) = n_step_lists st"
  "n_name_lists (fst (add_changed_step uuid s e st end_cps ss)) = n_name_lists st"
  "n_steps st \<le> n_steps (fst (add_changed_step uuid s e st end_cps ss))"
  "snd (add_changed_step uuid s e st end_cps ss) = Inr u \<Longrightarrow>
     step_lists (fst (add_changed_step uuid s e st end_cps ss)) ss
       = step_lists st ss
         @ [n_steps st ..< n_steps (fst (add_changed_step uuid s e st end_cps ss))]"
  by (auto simp: add_changed_step_def generate_id_def create_copy_def name_list_append_def
        step_list_append_def Let_def split: option.splits)

lemma add_changed_steps_effect:
  "graphs (fst (add_changed_steps uuid edges st end_cps ss)) = graphs st
   \<and> n_graphs (fst (add_changed_steps uuid edges st end_cps ss)) = n_graphs st
   \<and> n_step_lists (fst (add_changed_steps uuid edges st end_cps ss)) = n_step_lists st
   \<and> n_name_lists (fst (add_changed_steps uuid edges st end_cps ss)) = n_name_lists st
   \<and> n_steps st \<le> n_steps (fst (add_changed_steps uuid edges st end_cps ss))
   \<and> (snd (add_changed_steps uuid edges st end_cps ss) = Inr ()
        \<longrightarrow> step_lists (fst (add_changed_steps uuid edges st end_cps ss)) ss
              = step_lists st ss
                @ [n_steps st ..< n_steps (fst (add_changed_steps uuid edges st end_cps ss))])"
proof (induction edges arbitrary: st)
  case Nil
  show ?case by simp
next
  case (Cons edge edges)
  obtain s e where edge: "edge = (s, e)" by (cases edge)
  obtain st' res where b: "add_changed_step uuid s e st end_cps ss = (st', res)"
    by (cases "add_changed_step uuid s e st end_cps ss")
  let ?b = "add_changed_step uuid s e st end_cps ss"
  have "graphs (fst ?b) = graphs st" "n_graphs (fst ?b) = n_graphs st"
    "n_step_lists (fst ?b) = n_step_lists st" "n_name_lists (fst ?b) = n_name_lists st"
    "n_steps st \<le> n_steps (fst ?b)"
    "\<And>u. snd ?b = Inr u \<Longrightarrow> step_lists (fst ?b) ss
        = step_lists st ss @ [n_steps st ..< n_steps (fst ?b)]"
    by (rule add_changed_step_effect)+
  note eff = this[unfolded b fst_conv snd_conv]
  show ?case
  proof (cases res)
    case (Inl err)
    with edge b eff(1-5) show ?thesis by simp
  next
    case (Inr u)
    let ?r = "add_changed_steps uuid edges st' end_cps ss"
    from Cons.IH[of st'] have ih: "graphs (fst ?r) = graphs st'"
      "n_graphs (fst ?r) = n_graphs st'" "n_step_lists (fst ?r) = n_step_lists st'"
      "n_name_lists (fst ?r) = n_name_lists st'" "n_steps st' \<le> n_steps (fst ?r)"
      "snd ?r = Inr () \<longrightarrow> step_lists (fst ?r) ss
          = step_lists st' ss @ [n_steps st' ..< n_steps (fst ?r)]"
      by blast+
    have step: "step_lists st' ss = step_lists st ss @ [n_steps st ..< n_steps st']"
      using eff(6)[of u] Inr by simp
    have "[n_steps st ..< n_steps st'] @ [n_steps st' ..< n_steps (fst ?r)]
            = [n_steps st ..< n_steps (fst ?r)]"
      using eff(5) ih(5) by (metis le_Suc_ex upt_add_eq_append)
    with step ih(6) have "snd ?r = Inr () \<longrightarrow> step_lists (fst ?r) ss
          = step_lists st ss @ [n_steps st ..< n_steps (fst ?r)]"
      by simp
    with edge b Inr eff(1-5) ih(1-5) show ?thesis by simp
  qed
qed

lemma StoryGraph_init_refs_effect:
  assumes "StoryGraph_init_refs sel st ss ends = (st', g)"
  shows "g = n_graphs st" "n_graphs st' = Suc (n_graphs st)"
    "steps st' = steps st" "n_steps st' = n_steps st"
    "step_lists st' = step_lists st" "n_step_lists st' = n_step_lists st"
    "story_steps (graphs st' g) = ss"
    "ordered_ids (graphs st' g) = fst (order_steps sel (map (steps st) (step_lists st ss)))"
    "cyclic_edge_ids (graphs st' g) = snd (order_steps sel (map (steps st) (step_lists st ss)))"
    "step_lookup (graphs st' g)
       = foldl (\<lambda>d s. AList.update (step_id (steps st s)) s d) [] (step_lists st ss)"
    "ends = Some cs \<Longrightarrow> name_lists st cs \<noteq> [] \<Longrightarrow> story_end_checkpoints (graphs st' g) = cs"
    "ends = Some cs \<Longrightarrow> name_lists st cs = [] \<Longrightarrow>
       story_end_checkpoints (graphs st' g) = n_name_lists st"
    "n_name_lists st \<le> n_name_lists st'"
    "ends = Some cs \<Longrightarrow> name_lists st cs = [] \<Longrightarrow> n_name_lists st' = Suc (n_name_lists st)"
  using assms
  by (auto simp: StoryGraph_init_refs_def new_name_list_def Let_def
        split: prod.splits option.splits if_splits)

lemma frame_StoryGraph_init_refs:
  assumes "frame st0 st"
  shows "frame st0 (fst (StoryGraph_init_refs sel st ss ends))"
  using assms
  by (auto simp: StoryGraph_init_refs_def new_name_list_def Let_def frame_def
        split: prod.splits option.splits)

lemma start_ids_steps_cong: "steps st1 = steps st \<Longrightarrow> start_ids st1 es = start_ids st es"
  by (induction st es rule: start_ids.induct) (auto split: sum.splits)

text \<open>The constructed graph: what \<open>with_cycles_removed\<close> returns when it returns.\<close>

definition rewritten_from ::
  "((string \<times> string) set \<Rightarrow> (string \<times> string) list) \<Rightarrow> string chooser \<Rightarrow> 'p store \<Rightarrow> nat
     \<Rightarrow> 'p store \<Rightarrow> nat \<Rightarrow> bool" where
  "rewritten_from iter sel st self st' g \<longleftrightarrow>
     g = n_graphs st \<and> n_graphs st' = Suc (n_graphs st) \<and>
     story_steps (graphs st' g) = n_step_lists st \<and>
     n_step_lists st < n_step_lists st' \<and>
     n_name_lists st \<le> story_end_checkpoints (graphs st' g) \<and>
     story_end_checkpoints (graphs st' g) < n_name_lists st' \<and>
     (case start_ids st (cyclic_edges iter (graphs st self)) of
        Inl err \<Rightarrow> False
      | Inr ids \<Rightarrow>
          step_lists st' (story_steps (graphs st' g))
            = filter (\<lambda>s. step_id (steps st s) \<notin> set ids)
                (step_lists st (story_steps (graphs st self)))
              @ [n_steps st ..< n_steps st']) \<and>
     step_lookup (graphs st' g)
       = foldl (\<lambda>d s. AList.update (step_id (steps st' s)) s d) []
           (step_lists st' (story_steps (graphs st' g))) \<and>
     ordered_ids (graphs st' g)
       = fst (order_steps sel (map (steps st') (step_lists st' (story_steps (graphs st' g))))) \<and>
     cyclic_edge_ids (graphs st' g)
       = snd (order_steps sel (map (steps st') (step_lists st' (story_steps (graphs st' g)))))"

lemma with_cycles_removed_effect:
  "frame st (fst (with_cycles_removed uuid iter sel st self))"
  "snd (with_cycles_removed uuid iter sel st self) = Inr g \<Longrightarrow>
     rewritten_from iter sel st self (fst (with_cycles_removed uuid iter sel st self)) g"
proof -
  let ?edges = "cyclic_edges iter (graphs st self)"
  let ?copy = "name_lists st (story_end_checkpoints (graphs st self))"
  obtain end_cps st1 where n1: "new_name_list ?copy st = (end_cps, st1)"
    by (cases "new_name_list ?copy st")
  then have end_cps: "end_cps = n_name_lists st"
    and st1: "steps st1 = steps st" "graphs st1 = graphs st" "step_lists st1 = step_lists st"
      "n_step_lists st1 = n_step_lists st" "n_steps st1 = n_steps st" "n_graphs st1 = n_graphs st"
      "n_name_lists st1 = Suc (n_name_lists st)"
    by (auto simp: new_name_list_def)
  have "frame st (snd (new_name_list ?copy st))"
    using frame_refl by (rule frame_new_name_list)
  with n1 have f1: "frame st st1" by simp
  have sid: "start_ids st1 ?edges = start_ids st ?edges"
    using st1(1) by (rule start_ids_steps_cong)
  have "frame st (fst (with_cycles_removed uuid iter sel st self))
        \<and> (snd (with_cycles_removed uuid iter sel st self) = Inr g \<longrightarrow>
             rewritten_from iter sel st self (fst (with_cycles_removed uuid iter sel st self)) g)"
  proof (cases "start_ids st ?edges")
    case (Inl err)
    with n1 st1 sid f1 show ?thesis by (simp add: with_cycles_removed_def Let_def)
  next
    case (Inr ids)
    let ?kept = "filter (\<lambda>s. step_id (steps st s) \<notin> set ids)
                   (step_lists st (story_steps (graphs st self)))"
    obtain ss st2 where n2: "new_step_list ?kept st1 = (ss, st2)"
      by (cases "new_step_list ?kept st1")
    then have ss: "ss = n_step_lists st"
      and st2: "steps st2 = steps st" "graphs st2 = graphs st" "step_lists st2 ss = ?kept"
        "n_step_lists st2 = Suc (n_step_lists st)" "n_steps st2 = n_steps st"
        "n_graphs st2 = n_graphs st" "n_name_lists st2 = Suc (n_name_lists st)"
      using st1 by (auto simp: new_step_list_def)
    have "frame st (snd (new_step_list ?kept st1))"
      using f1 by (rule frame_new_step_list)
    with n2 have f2: "frame st st2" by simp
    obtain st3 res where a: "add_changed_steps uuid ?edges st2 end_cps ss = (st3, res)"
      by (cases "add_changed_steps uuid ?edges st2 end_cps ss")
    have "frame st (fst (add_changed_steps uuid ?edges st2 end_cps ss))"
      using f2 by (rule frame_add_changed_steps) (simp_all add: end_cps ss)
    with a have f3: "frame st st3" by simp
    let ?a = "add_changed_steps uuid ?edges st2 end_cps ss"
    have "graphs (fst ?a) = graphs st2
       \<and> n_graphs (fst ?a) = n_graphs st2
       \<and> n_step_lists (fst ?a) = n_step_lists st2
       \<and> n_name_lists (fst ?a) = n_name_lists st2
       \<and> n_steps st2 \<le> n_steps (fst ?a)
       \<and> (snd ?a = Inr () \<longrightarrow> step_lists (fst ?a) ss
              = step_lists st2 ss @ [n_steps st2 ..< n_steps (fst ?a)])"
      by (rule add_changed_steps_effect)
    with a
    have st3: "n_graphs st3 = n_graphs st" "n_step_lists st3 = Suc (n_step_lists st)"
      "n_name_lists st3 = Suc (n_name_lists st)"
      "res = Inr () \<longrightarrow> step_lists st3 ss = ?kept @ [n_steps st ..< n_steps st3]"
      using st2 by simp_all
    have unfold: "with_cycles_removed uuid iter sel st self =
        (case res of Inl err \<Rightarrow> (st3, Inl err)
         | Inr u \<Rightarrow> (case StoryGraph_init_refs sel st3 ss (Some end_cps) of
                       (st'', g) \<Rightarrow> (st'', Inr g)))"
      using n1 n2 a Inr sid st1
      by (simp add: with_cycles_removed_def Let_def)
    show ?thesis
    proof (cases res)
      case (Inl err)
      with unfold f3 show ?thesis by simp
    next
      case res: (Inr u)
      obtain st4 g' where i: "StoryGraph_init_refs sel st3 ss (Some end_cps) = (st4, g')"
        by (cases "StoryGraph_init_refs sel st3 ss (Some end_cps)")
      have "frame st (fst (StoryGraph_init_refs sel st3 ss (Some end_cps)))"
        using f3 by (rule frame_StoryGraph_init_refs)
      with i have f4: "frame st st4" by simp
      note e = StoryGraph_init_refs_effect[OF i]
      have w: "with_cycles_removed uuid iter sel st self = (st4, Inr g')"
        using unfold res i by simp
      have ends: "n_name_lists st \<le> story_end_checkpoints (graphs st4 g')
                  \<and> story_end_checkpoints (graphs st4 g') < n_name_lists st4"
      proof (cases "name_lists st3 end_cps = []")
        case True
        from e(12)[OF refl True] e(14)[OF refl True] st3(3) show ?thesis by simp
      next
        case False
        from e(11)[OF refl False] e(13) st3(3) end_cps show ?thesis by simp
      qed
      have lists: "step_lists st4 ss = ?kept @ [n_steps st ..< n_steps st4]"
        using st3(4) res e(4,5) by simp
      have nl: "n_step_lists st < n_step_lists st4" using e(6) st3(2) by simp
      have "rewritten_from iter sel st self st4 g'"
        unfolding rewritten_from_def
        using e(1,2,7,8,9,10) e(3,5) st3(1) ss ends lists Inr nl
        by simp
      with w f4 show ?thesis by auto
    qed
  qed
  then show "frame st (fst (with_cycles_removed uuid iter sel st self))"
    and "snd (with_cycles_removed uuid iter sel st self) = Inr g \<Longrightarrow>
     rewritten_from iter sel st self (fst (with_cycles_removed uuid iter sel st self)) g"
    by blast+
qed

text \<open>
  C9. \<open>with_cycles_removed\<close> leaves the receiver as it was, whether it returns or raises.
  For a receiver that is an allocated graph object whose two lists are allocated list
  objects and whose steps are allocated step objects: the graph object (its references to
  the two lists, its lookup table, \<open>ordered_ids\<close> and \<open>cyclic_edge_ids\<close>), the list object
  of its steps, the list object of its end checkpoints and every step object in its step
  list are the same after the call, as is every other object that existed before. A graph
  that is returned is a new object: it is allocated by the call, its two lists are list
  objects allocated by the call, its step list holds the receiver's steps that are not the
  source of a cyclic edge followed by the step objects created by the call, and its lookup
  table, ordering and cyclic edges are those that \<open>__init__\<close> computes from that list.
\<close>

theorem with_cycles_removed_keeps_receiver:
  assumes "with_cycles_removed uuid iter sel st self = (st', res)"
    and "self < n_graphs st"
    and "story_steps (graphs st self) < n_step_lists st"
    and "story_end_checkpoints (graphs st self) < n_name_lists st"
    and "\<forall>r \<in> set (step_lists st (story_steps (graphs st self))). r < n_steps st"
  shows "graphs st' self = graphs st self
    \<and> step_lists st' (story_steps (graphs st' self))
        = step_lists st (story_steps (graphs st self))
    \<and> name_lists st' (story_end_checkpoints (graphs st' self))
        = name_lists st (story_end_checkpoints (graphs st self))
    \<and> map (steps st') (step_lists st' (story_steps (graphs st' self)))
        = map (steps st) (step_lists st (story_steps (graphs st self)))
    \<and> (\<forall>r < n_steps st. steps st' r = steps st r)
    \<and> (\<forall>g < n_graphs st. graphs st' g = graphs st g)
    \<and> (\<forall>l < n_step_lists st. step_lists st' l = step_lists st l)
    \<and> (\<forall>l < n_name_lists st. name_lists st' l = name_lists st l)
    \<and> (\<forall>g. res = Inr g \<longrightarrow> g \<noteq> self \<and> rewritten_from iter sel st self st' g)"
proof -
  have "frame st (fst (with_cycles_removed uuid iter sel st self))"
    by (rule with_cycles_removed_effect(1))
  with assms(1) have f: "frame st st'" by simp
  then have old_steps: "\<forall>r < n_steps st. steps st' r = steps st r"
    and old_graphs: "\<forall>g < n_graphs st. graphs st' g = graphs st g"
    and old_step_lists: "\<forall>l < n_step_lists st. step_lists st' l = step_lists st l"
    and old_name_lists: "\<forall>l < n_name_lists st. name_lists st' l = name_lists st l"
    by (simp_all add: frame_def)
  from old_graphs assms(2) have self: "graphs st' self = graphs st self" by simp
  from old_step_lists assms(3)
  have sl: "step_lists st' (story_steps (graphs st' self))
        = step_lists st (story_steps (graphs st self))"
    by (simp add: self)
  from old_name_lists assms(4)
  have nl: "name_lists st' (story_end_checkpoints (graphs st' self))
        = name_lists st (story_end_checkpoints (graphs st self))"
    by (simp add: self)
  have "map (steps st') (step_lists st (story_steps (graphs st self)))
        = map (steps st) (step_lists st (story_steps (graphs st self)))"
    using old_steps assms(5) by simp
  then have steps: "map (steps st') (step_lists st' (story_steps (graphs st' self)))
        = map (steps st) (step_lists st (story_steps (graphs st self)))"
    by (simp add: sl)
  have new: "\<forall>g. res = Inr g \<longrightarrow> g \<noteq> self \<and> rewritten_from iter sel st self st' g"
  proof (intro allI impI)
    fix g assume "res = Inr g"
    with assms(1) have r: "snd (with_cycles_removed uuid iter sel st self) = Inr g" by simp
    have "rewritten_from iter sel st self (fst (with_cycles_removed uuid iter sel st self)) g"
      using r by (rule with_cycles_removed_effect(2))
    with assms(1) have rw: "rewritten_from iter sel st self st' g" by simp
    then have "g = n_graphs st" by (simp add: rewritten_from_def)
    with assms(2) rw show "g \<noteq> self \<and> rewritten_from iter sel st self st' g" by simp
  qed
  from self sl nl steps old_steps old_graphs old_step_lists old_name_lists new
  show ?thesis by blast
qed

theorem with_cycles_removed_keeps_receiver_witness:
  "0 < n_graphs (cycle_store (\<lambda>_. 0))
   \<and> snd (with_cycles_removed example_uuid example_iter (\<lambda>_. 0) (cycle_store (\<lambda>_. 0)) 0) = Inr 1
   \<and> graphs (fst (with_cycles_removed example_uuid example_iter (\<lambda>_. 0) (cycle_store (\<lambda>_. 0)) 0)) 0
       = graphs (cycle_store (\<lambda>_. 0)) 0
   \<and> step_lists (fst (with_cycles_removed example_uuid example_iter (\<lambda>_. 0)
                        (cycle_store (\<lambda>_. 0)) 0)) 0 = [0, 1, 2]
   \<and> name_lists (fst (with_cycles_removed example_uuid example_iter (\<lambda>_. 0)
                        (cycle_store (\<lambda>_. 0)) 0)) 0 = []
   \<and> map (steps (fst (with_cycles_removed example_uuid example_iter (\<lambda>_. 0)
                        (cycle_store (\<lambda>_. 0)) 0))) [0, 1, 2]
       = map cycle_steps [0, 1, 2]
   \<and> n_graphs (fst (with_cycles_removed example_uuid example_iter (\<lambda>_. 0)
                        (cycle_store (\<lambda>_. 0)) 0)) = 2
   \<and> step_lists (fst (with_cycles_removed example_uuid example_iter (\<lambda>_. 0)
                        (cycle_store (\<lambda>_. 0)) 0))
        (story_steps (graphs (fst (with_cycles_removed example_uuid example_iter (\<lambda>_. 0)
                        (cycle_store (\<lambda>_. 0)) 0)) 1))
       = [0, 1, 3, 4]"
proof -
  let ?st = "cycle_store (\<lambda>_. 0)"
  let ?w = "with_cycles_removed example_uuid example_iter (\<lambda>_. 0) ?st 0"
  have h1: "?w = (fst ?w, snd ?w)" by simp
  have h2: "0 < n_graphs ?st" by (simp add: cycle_store_graph)
  have h3: "story_steps (graphs ?st 0) < n_step_lists ?st"
    by (simp add: cycle_store_edges cycle_store_graph(2-))
  have h4: "story_end_checkpoints (graphs ?st 0) < n_name_lists ?st"
    by (simp add: cycle_store_edges cycle_store_graph(2-))
  have h5: "\<forall>r \<in> set (step_lists ?st (story_steps (graphs ?st 0))). r < n_steps ?st"
    by (simp add: cycle_store_edges cycle_store_graph(2-))
  have res: "snd ?w = Inr 1" using rewritten_0(1)[of "\<lambda>_. 0"] by simp
  note t = with_cycles_removed_keeps_receiver[OF h1 h2 h3 h4 h5]
  from t have a: "graphs (fst ?w) 0 = graphs ?st 0" by blast
  from t have "step_lists (fst ?w) (story_steps (graphs (fst ?w) 0))
        = step_lists ?st (story_steps (graphs ?st 0))" by blast
  then have b: "step_lists (fst ?w) 0 = [0, 1, 2]"
    by (simp add: a cycle_store_edges cycle_store_graph(2-))
  from t have "name_lists (fst ?w) (story_end_checkpoints (graphs (fst ?w) 0))
        = name_lists ?st (story_end_checkpoints (graphs ?st 0))" by blast
  then have c: "name_lists (fst ?w) 0 = []"
    by (simp add: a cycle_store_edges cycle_store_graph(2-))
  from t have "map (steps (fst ?w)) (step_lists (fst ?w) (story_steps (graphs (fst ?w) 0)))
        = map (steps ?st) (step_lists ?st (story_steps (graphs ?st 0)))" by blast
  then have d: "map (steps (fst ?w)) [0, 1, 2] = map cycle_steps [0, 1, 2]"
    by (simp add: a b cycle_store_edges cycle_store_graph(2-))
  from t res have rw: "rewritten_from example_iter (\<lambda>_. 0) ?st 0 (fst ?w) 1" by blast
  then have e: "n_graphs (fst ?w) = 2"
    by (simp add: rewritten_from_def cycle_store_graph)
  have n: "n_steps (fst ?w) = 5"
    by (simp add: rewrite_simps)
  have ids: "start_ids ?st (cyclic_edges example_iter (graphs ?st 0)) = Inr [''C'']"
    by (simp add: cyclic_edges_def cycle_store_edges cycle_store_graph(2-) example_iter_def get_def
          cycle_steps_def)
  from rw have "case start_ids ?st (cyclic_edges example_iter (graphs ?st 0)) of
        Inl err \<Rightarrow> False
      | Inr ids \<Rightarrow>
          step_lists (fst ?w) (story_steps (graphs (fst ?w) 1))
            = filter (\<lambda>s. step_id (steps ?st s) \<notin> set ids)
                (step_lists ?st (story_steps (graphs ?st 0)))
              @ [n_steps ?st ..< n_steps (fst ?w)]"
    unfolding rewritten_from_def by blast
  then have f: "step_lists (fst ?w) (story_steps (graphs (fst ?w) 1)) = [0, 1, 3, 4]"
    unfolding ids
    by (simp add: n cycle_store_edges cycle_store_graph(2-) cycle_steps_def)
  from h2 res a b c d e f show ?thesis by blast
qed

section \<open>Two runs and the two generators\<close>






















end
